theory Spec2Isabelle
  imports Main
begin

section \<open>Strings\<close>

text \<open>
  A JavaScript string is a sequence of UTF-16 code units. The model uses \<^typ>\<open>string\<close>,
  whose characters are the code units below 256 (the Latin-1 range); on that range the
  functions below are what \<^verbatim>\<open>String.prototype\<close> computes.
\<close>

text \<open>The class \<^verbatim>\<open>\s\<close> of a regular expression, which is also what \<^verbatim>\<open>trim\<close> strips:
  tab, line feed, vertical tab, form feed, carriage return, space, no-break space.\<close>

definition isWhiteSpace :: "char \<Rightarrow> bool" where
  "isWhiteSpace c = (of_char c \<in> {9, 10, 11, 12, 13, 32, 160 :: nat})"

text \<open>\<^verbatim>\<open>toLowerCase\<close>: A-Z and the Latin-1 capitals (all of C0-DE but the sign D7) move by 32.\<close>

definition lowerChar :: "char \<Rightarrow> char" where
  "lowerChar c =
     (let n = (of_char c :: nat)
      in if (65 \<le> n \<and> n \<le> 90) \<or> (192 \<le> n \<and> n \<le> 222 \<and> n \<noteq> 215)
         then char_of (n + 32) else c)"

definition toLowerCase :: "string \<Rightarrow> string" where
  "toLowerCase s = map lowerChar s"

text \<open>\<^verbatim>\<open>s.startsWith(p)\<close>\<close>

definition startsWith :: "string \<Rightarrow> string \<Rightarrow> bool" where
  "startsWith s p = (take (length p) s = p)"

text \<open>\<^verbatim>\<open>s.includes(q)\<close>: \<open>q\<close> occurs in \<open>s\<close> at some position.\<close>

fun includesStr :: "string \<Rightarrow> string \<Rightarrow> bool" where
  "includesStr [] q = (q = [])"
| "includesStr (c # cs) q = (startsWith (c # cs) q \<or> includesStr cs q)"

text \<open>\<^verbatim>\<open>s.substring(0, n)\<close> for a constant \<open>n \<ge> 0\<close>\<close>

definition substring0 :: "string \<Rightarrow> nat \<Rightarrow> string" where
  "substring0 s n = take n s"

text \<open>\<^verbatim>\<open>s.replace(/\s+/g, ' ')\<close>: every maximal run of white space becomes one space.\<close>

function collapseWhiteSpace :: "string \<Rightarrow> string" where
  "collapseWhiteSpace [] = []"
| "collapseWhiteSpace (c # cs) =
     (if isWhiteSpace c then CHR '' '' # collapseWhiteSpace (dropWhile isWhiteSpace cs)
      else c # collapseWhiteSpace cs)"
  by pat_completeness auto
termination
  by (relation "measure length") (auto simp: length_dropWhile_le less_Suc_eq_le)

text \<open>\<^verbatim>\<open>s.trim()\<close>\<close>

definition trim :: "string \<Rightarrow> string" where
  "trim s = rev (dropWhile isWhiteSpace (rev (dropWhile isWhiteSpace s)))"

section \<open>The knowledge base\<close>

text \<open>
  \<^verbatim>\<open>knowledgeBase\<close> is a JavaScript \<^verbatim>\<open>Map\<close>: it iterates in insertion order, and
  \<^verbatim>\<open>set\<close> on a key that is present replaces the value where it stands. It is modelled
  as an association list in insertion order.
\<close>

record document =
  title :: string
  content :: string
  doc_url :: string

type_synonym knowledge_base = "(string \<times> document) list"

fun mapSet :: "'k \<Rightarrow> 'v \<Rightarrow> ('k \<times> 'v) list \<Rightarrow> ('k \<times> 'v) list" where
  "mapSet k v [] = [(k, v)]"
| "mapSet k v ((k', v') # kvs) =
     (if k' = k then (k, v) # kvs else (k', v') # mapSet k v kvs)"

definition mapHas :: "'k \<Rightarrow> ('k \<times> 'v) list \<Rightarrow> bool" where
  "mapHas k kvs = (k \<in> set (map fst kvs))"

section \<open>searchKnowledgeBase\<close>

record result =
  res_title :: string
  excerpt :: string
  res_url :: string

text \<open>The test of the loop body, on the lower-cased query.\<close>

definition docMatches :: "string \<Rightarrow> document \<Rightarrow> bool" where
  "docMatches queryLower doc =
     (includesStr (toLowerCase (title doc)) queryLower \<or>
      includesStr (toLowerCase (content doc)) queryLower)"

definition toResult :: "document \<Rightarrow> result" where
  "toResult doc =
     \<lparr>res_title = title doc,
      excerpt = substring0 (content doc) 200 @ ''...'',
      res_url = doc_url doc\<rparr>"

text \<open>
  The \<^verbatim>\<open>for\<close> loop of \<^verbatim>\<open>searchKnowledgeBase\<close> over the remaining entries. The test
  \<^verbatim>\<open>results.length >= limit\<close> stands after the \<^verbatim>\<open>if\<close>, so it is made at every entry,
  matching or not. \<open>limit\<close> is a JavaScript number; the model takes the integers.
\<close>

fun searchLoop :: "knowledge_base \<Rightarrow> string \<Rightarrow> int \<Rightarrow> result list \<Rightarrow> result list" where
  "searchLoop [] queryLower limit results = results"
| "searchLoop ((url, doc) # entries) queryLower limit results =
     (let results' = (if docMatches queryLower doc then results @ [toResult doc] else results)
      in if int (length results') \<ge> limit then results'
         else searchLoop entries queryLower limit results')"

definition searchKnowledgeBase :: "knowledge_base \<Rightarrow> string \<Rightarrow> int \<Rightarrow> result list" where
  "searchKnowledgeBase kb query limit = searchLoop kb (toLowerCase query) limit []"

section \<open>The crawler\<close>

record knowledge_section =
  name :: string
  url :: string

definition KNOWLEDGE_SECTIONS :: "knowledge_section list" where
  "KNOWLEDGE_SECTIONS =
     [\<lparr>name = ''Condeco'', url = ''https://knowledge.eptura.com/condeco''\<rparr>,
      \<lparr>name = ''Proxyclick'', url = ''https://knowledge.eptura.com/proxyclick''\<rparr>,
      \<lparr>name = ''Serraview'', url = ''https://knowledge.eptura.com/serraview''\<rparr>,
      \<lparr>name = ''iOFFICE'', url = ''https://knowledge.eptura.com/ioffice''\<rparr>,
      \<lparr>name = ''ManagerPlus'', url = ''https://knowledge.eptura.com/managerplus''\<rparr>,
      \<lparr>name = ''SpaceIQ'', url = ''https://knowledge.eptura.com/spaceiq''\<rparr>,
      \<lparr>name = ''Archibus'', url = ''https://knowledge.eptura.com/archibus''\<rparr>]"

text \<open>
  What the crawler reads of a page that \<^verbatim>\<open>cheerio.load\<close> has parsed: the text of each
  \<^verbatim>\<open>title\<close> element in document order, the text of the body, and for each \<^verbatim>\<open>a\<close> element
  in document order its \<^verbatim>\<open>href\<close> attribute (absent for an anchor without one) and its text.
\<close>

record page =
  titles :: "string list"
  bodyText :: string
  anchors :: "(string option \<times> string) list"

text \<open>
  The network is a parameter: \<open>web t u\<close> is what the request for \<open>u\<close> gives when \<open>t\<close>
  requests have been made before it, \<open>None\<close> when \<^verbatim>\<open>axios.get\<close> or \<^verbatim>\<open>cheerio.load\<close>
  throws. A page may so change or fail from one request to the next.
\<close>

type_synonym web = "nat \<Rightarrow> string \<Rightarrow> page option"

text \<open>
  One entry of the request log, which the program does not keep: the address requested,
  the \<^verbatim>\<open>depth\<close> of the call that made the request, and whether the \<^verbatim>\<open>try\<close> block went
  through.
\<close>

record fetch =
  f_url :: string
  f_depth :: nat
  f_ok :: bool

text \<open>The two globals of the program, and the log of the requests made so far.\<close>

record state =
  knowledgeBase :: knowledge_base
  lastScrapeTime :: "nat option"
  fetchLog :: "fetch list"

definition initialState :: state where
  "initialState = \<lparr>knowledgeBase = [], lastScrapeTime = None, fetchLog = []\<rparr>"

text \<open>\<^verbatim>\<open>$('title').text() || section.name\<close>; \<^verbatim>\<open>text()\<close> of a selection is the text of all
  the elements selected, one after the other.\<close>

definition pageTitle :: "page \<Rightarrow> knowledge_section \<Rightarrow> string" where
  "pageTitle pg sec = (let t = concat (titles pg) in if t = [] then name sec else t)"

text \<open>\<^verbatim>\<open>$('body').text().replace(/\s+/g, ' ').trim().substring(0, 1000)\<close>\<close>

definition pageContent :: "page \<Rightarrow> string" where
  "pageContent pg = substring0 (trim (collapseWhiteSpace (bodyText pg))) 1000"

text \<open>The loop \<^verbatim>\<open>$('a').each\<close>, which fills \<^verbatim>\<open>links\<close>; the knowledge base does not change
  while it runs.\<close>

fun collectLinks :: "(string option \<times> string) list \<Rightarrow> knowledge_base \<Rightarrow> knowledge_section list" where
  "collectLinks [] kb = []"
| "collectLinks ((href, text) # rest) kb =
     (case href of
        None \<Rightarrow> collectLinks rest kb
      | Some h \<Rightarrow>
          if h \<noteq> [] \<and> startsWith h ''https://knowledge.eptura.com'' \<and> \<not> mapHas h kb
          then \<lparr>name = text, url = h\<rparr> # collectLinks rest kb
          else collectLinks rest kb)"

text \<open>
  \<^verbatim>\<open>scrapeSectionRecursively\<close>. The pause of two seconds after each link takes time and
  changes nothing else, and is left out. An exception of the \<^verbatim>\<open>try\<close> block is raised by
  the request or the parser, before the knowledge base is written; the \<^verbatim>\<open>catch\<close> logs it.
\<close>

function scrapeSectionRecursively :: "web \<Rightarrow> knowledge_section \<Rightarrow> nat \<Rightarrow> nat \<Rightarrow> state \<Rightarrow> state" where
  "scrapeSectionRecursively web sec depth maxDepth st =
     (if depth > maxDepth then st
      else
        case web (length (fetchLog st)) (url sec) of
          None \<Rightarrow>
            st\<lparr>fetchLog := fetchLog st @ [\<lparr>f_url = url sec, f_depth = depth, f_ok = False\<rparr>]\<rparr>
        | Some pg \<Rightarrow>
            let st1 = st\<lparr>fetchLog := fetchLog st @ [\<lparr>f_url = url sec, f_depth = depth, f_ok = True\<rparr>],
                       knowledgeBase :=
                         mapSet (url sec)
                           \<lparr>title = pageTitle pg sec, content = pageContent pg, doc_url = url sec\<rparr>
                           (knowledgeBase st)\<rparr>;
                links = collectLinks (anchors pg) (knowledgeBase st1)
            in fold (\<lambda>link s. scrapeSectionRecursively web link (depth + 1) maxDepth s) links st1)"
  by pat_completeness auto
termination
  by (relation "measure (\<lambda>(web, sec, depth, maxDepth, st). Suc maxDepth - depth)") auto

text \<open>The loop of \<^verbatim>\<open>scrapeEpturaKnowledge\<close> over the sections.\<close>

definition scrapeSections :: "web \<Rightarrow> knowledge_section list \<Rightarrow> state \<Rightarrow> state" where
  "scrapeSections web secs st = fold (\<lambda>sec s. scrapeSectionRecursively web sec 0 1 s) secs st"

text \<open>\<^verbatim>\<open>scrapeEpturaKnowledge\<close>; \<open>now\<close> is the value of \<^verbatim>\<open>new Date()\<close> when the loop is over.
  Nothing in the loop throws, so the \<^verbatim>\<open>catch\<close> is never entered.\<close>

definition scrapeEpturaKnowledge :: "web \<Rightarrow> nat \<Rightarrow> state \<Rightarrow> state" where
  "scrapeEpturaKnowledge web now st =
     (scrapeSections web KNOWLEDGE_SECTIONS st)\<lparr>lastScrapeTime := Some now\<rparr>"


text \<open>The program starts with an empty knowledge base and runs one pass after the other,
  each started by the timer or by \<^verbatim>\<open>POST /api/scrape\<close>.\<close>

fun runPasses :: "(web \<times> nat) list \<Rightarrow> state \<Rightarrow> state" where
  "runPasses [] st = st"
| "runPasses ((web, now) # ps) st = runPasses ps (scrapeEpturaKnowledge web now st)"

section \<open>Notions used to state the properties\<close>

text \<open>The keys of the knowledge base.\<close>

definition storedUrls :: "state \<Rightarrow> string set" where
  "storedUrls st = fst ` set (knowledgeBase st)"

text \<open>The requests made between an earlier state and a later one.\<close>

definition newFetches :: "state \<Rightarrow> state \<Rightarrow> fetch list" where
  "newFetches st st' = drop (length (fetchLog st)) (fetchLog st')"

text \<open>The requests of one pass: what the pass adds to the log.\<close>

definition passFetches :: "web \<Rightarrow> nat \<Rightarrow> state \<Rightarrow> fetch list" where
  "passFetches web now st = newFetches st (scrapeEpturaKnowledge web now st)"

text \<open>The state when the request for a section has gone through and its document is
  written, before the links of the page are followed.\<close>

definition stored :: "knowledge_section \<Rightarrow> nat \<Rightarrow> page \<Rightarrow> state \<Rightarrow> state" where
  "stored sec d pg st =
     st\<lparr>fetchLog := fetchLog st @ [\<lparr>f_url = url sec, f_depth = d, f_ok = True\<rparr>],
        knowledgeBase :=
          mapSet (url sec)
            \<lparr>title = pageTitle pg sec, content = pageContent pg, doc_url = url sec\<rparr>
            (knowledgeBase st)\<rparr>"

text \<open>
  What a stretch of crawling does to the state, for a property \<open>P\<close> of its requests:
  the log grows by requests that satisfy \<open>P\<close>; an address whose request went through is a
  key afterwards; an address with no request that went through keeps its entry; no key is
  lost; \<^verbatim>\<open>lastScrapeTime\<close> stays; the keys stay distinct; and every entry is an old one or
  was written from a page.
\<close>

definition crawled :: "(fetch \<Rightarrow> bool) \<Rightarrow> state \<Rightarrow> state \<Rightarrow> bool" where
  "crawled P st st' \<longleftrightarrow>
     (\<exists>new. fetchLog st' = fetchLog st @ new \<and>
        (\<forall>e \<in> set new. P e) \<and>
        (\<forall>e \<in> set new. f_ok e \<longrightarrow> f_url e \<in> storedUrls st') \<and>
        (\<forall>u. (\<forall>e \<in> set new. f_url e = u \<longrightarrow> \<not> f_ok e) \<longrightarrow>
             map_of (knowledgeBase st') u = map_of (knowledgeBase st) u)) \<and>
     storedUrls st \<subseteq> storedUrls st' \<and>
     lastScrapeTime st' = lastScrapeTime st \<and>
     (distinct (map fst (knowledgeBase st)) \<longrightarrow> distinct (map fst (knowledgeBase st'))) \<and>
     (\<forall>(k, d) \<in> set (knowledgeBase st').
        (k, d) \<in> set (knowledgeBase st) \<or> (doc_url d = k \<and> (\<exists>pg. content d = pageContent pg)))"

text \<open>No two neighbouring characters are both white space.\<close>

fun noWhiteSpaceRun :: "string \<Rightarrow> bool" where
  "noWhiteSpaceRun [] = True"
| "noWhiteSpaceRun [a] = True"
| "noWhiteSpaceRun (a # b # cs) = (\<not> (isWhiteSpace a \<and> isWhiteSpace b) \<and> noWhiteSpaceRun (b # cs))"

text \<open>What holds of the content of every document: at most 1000 characters, no two
  neighbouring white-space characters, no white space in front, and white space at the end
  only when the content has the full 1000 characters.\<close>

definition normalisedContent :: "string \<Rightarrow> bool" where
  "normalisedContent c \<longleftrightarrow>
     length c \<le> 1000 \<and> noWhiteSpaceRun c \<and>
     (c \<noteq> [] \<longrightarrow> \<not> isWhiteSpace (hd c)) \<and>
     (c \<noteq> [] \<and> isWhiteSpace (last c) \<longrightarrow> length c = 1000)"

section \<open>Example inputs\<close>

definition deskDoc :: document where
  "deskDoc = \<lparr>title = ''Condeco Home'', content = ''Book a desk with Condeco'',
               doc_url = ''https://knowledge.eptura.com/condeco''\<rparr>"

definition visitorDoc :: document where
  "visitorDoc = \<lparr>title = ''Proxyclick'', content = ''Welcome your visitors'',
               doc_url = ''https://knowledge.eptura.com/proxyclick''\<rparr>"

definition exampleBase :: knowledge_base where
  "exampleBase = [(''https://knowledge.eptura.com/proxyclick'', visitorDoc),
                  (''https://knowledge.eptura.com/condeco'', deskDoc)]"

definition homePage :: page where
  "homePage =
     \<lparr>titles = [''Condeco Home'', ''Close''],
      bodyText = [CHR 10] @ ''  Book a desk'' @ [CHR 9, CHR 10] @ '' with Condeco '',
      anchors = [(Some ''https://knowledge.eptura.com/condeco/faq'', ''FAQ''),
                 (None, ''Top''),
                 (Some ''https://knowledge.eptura.com/condeco/faq'', ''Questions''),
                 (Some ''https://example.com/'', ''Elsewhere'')]\<rparr>"

definition faqPage :: page where
  "faqPage =
     \<lparr>titles = [],
      bodyText = ''Frequent questions'',
      anchors = [(Some ''https://knowledge.eptura.com/condeco/faq/desks'', ''Desks'')]\<rparr>"

definition exampleWeb :: web where
  "exampleWeb t u =
     (if u = ''https://knowledge.eptura.com/condeco'' then Some homePage
      else if u = ''https://knowledge.eptura.com/condeco/faq'' then Some faqPage
      else None)"

definition downWeb :: web where
  "downWeb t u = None"

definition longPage :: page where
  "longPage = \<lparr>titles = [''Long''], bodyText = replicate 999 (CHR ''a'') @ '' b'', anchors = []\<rparr>"

definition longWeb :: web where
  "longWeb t u = (if u = ''https://knowledge.eptura.com/condeco'' then Some longPage else None)"


definition firstPass :: state where
  "firstPass = scrapeEpturaKnowledge exampleWeb 1 initialState"

definition longDoc :: document where
  "longDoc = \<lparr>title = ''Long'', content = replicate 999 (CHR ''a'') @ '' '',
               doc_url = ''https://knowledge.eptura.com/condeco''\<rparr>"

declare scrapeSectionRecursively.simps [simp del]

section \<open>The string functions\<close>

lemma startsWith_iff: "startsWith s p \<longleftrightarrow> (\<exists>ss. s = p @ ss)"
  unfolding startsWith_def
  by (metis append_eq_conv_conj append_take_drop_id)

lemma includesStr_iff: "includesStr s q \<longleftrightarrow> (\<exists>ps ss. s = ps @ q @ ss)"
proof (induction s)
  case Nil
  then show ?case by auto
next
  case (Cons c cs)
  show ?case
  proof
    assume "includesStr (c # cs) q"
    then consider "startsWith (c # cs) q" | "includesStr cs q" by auto
    then show "\<exists>ps ss. c # cs = ps @ q @ ss"
    proof cases
      case 1
      then obtain ss where "c # cs = q @ ss" by (auto simp: startsWith_iff)
      then have "c # cs = [] @ q @ ss" by simp
      then show ?thesis by blast
    next
      case 2
      then obtain ps ss where "cs = ps @ q @ ss" using Cons.IH by blast
      then have "c # cs = (c # ps) @ q @ ss" by simp
      then show ?thesis by blast
    qed
  next
    assume "\<exists>ps ss. c # cs = ps @ q @ ss"
    then obtain ps ss where e: "c # cs = ps @ q @ ss" by blast
    show "includesStr (c # cs) q"
    proof (cases ps)
      case Nil
      with e have "startsWith (c # cs) q" by (auto simp: startsWith_iff)
      then show ?thesis by simp
    next
      case (Cons p ps')
      with e have "cs = ps' @ q @ ss" by simp
      then have "includesStr cs q" using Cons.IH by blast
      then show ?thesis by simp
    qed
  qed
qed

lemma includesStr_empty: "includesStr s []"
  by (induction s) (auto simp: startsWith_def)

lemma toLowerCase_Nil: "toLowerCase [] = []"
  by (simp add: toLowerCase_def)

lemma noWhiteSpaceRun_iff:
  "noWhiteSpaceRun s \<longleftrightarrow>
     (\<forall>i. Suc i < length s \<longrightarrow> \<not> (isWhiteSpace (s ! i) \<and> isWhiteSpace (s ! Suc i)))"
proof (induction s rule: noWhiteSpaceRun.induct)
  case (3 a b cs)
  have "(\<forall>i. Suc i < length (a # b # cs) \<longrightarrow>
            \<not> (isWhiteSpace ((a # b # cs) ! i) \<and> isWhiteSpace ((a # b # cs) ! Suc i))) \<longleftrightarrow>
        \<not> (isWhiteSpace a \<and> isWhiteSpace b) \<and>
        (\<forall>i. Suc i < length (b # cs) \<longrightarrow>
            \<not> (isWhiteSpace ((b # cs) ! i) \<and> isWhiteSpace ((b # cs) ! Suc i)))"
    (is "?L \<longleftrightarrow> ?H \<and> ?R")
  proof
    assume l: ?L
    have ?H using l[rule_format, of 0] by simp
    moreover have ?R
    proof (intro allI impI)
      fix i assume "Suc i < length (b # cs)"
      then show "\<not> (isWhiteSpace ((b # cs) ! i) \<and> isWhiteSpace ((b # cs) ! Suc i))"
        using l[rule_format, of "Suc i"] by simp
    qed
    ultimately show "?H \<and> ?R" by simp
  next
    assume hr: "?H \<and> ?R"
    show ?L
    proof (intro allI impI)
      fix i assume i: "Suc i < length (a # b # cs)"
      show "\<not> (isWhiteSpace ((a # b # cs) ! i) \<and> isWhiteSpace ((a # b # cs) ! Suc i))"
      proof (cases i)
        case 0
        with hr show ?thesis by simp
      next
        case (Suc j)
        with i hr[THEN conjunct2, rule_format, of j] show ?thesis by simp
      qed
    qed
  qed
  with 3 show ?case by simp
qed simp_all

lemma noWhiteSpaceRun_Cons: "\<not> isWhiteSpace c \<Longrightarrow> noWhiteSpaceRun (c # r) = noWhiteSpaceRun r"
  by (cases r) simp_all

lemma noWhiteSpaceRun_Cons2:
  "r = [] \<or> \<not> isWhiteSpace (hd r) \<Longrightarrow> noWhiteSpaceRun (c # r) = noWhiteSpaceRun r"
  by (cases r) auto

lemma noWhiteSpaceRun_tl: "noWhiteSpaceRun (c # r) \<Longrightarrow> noWhiteSpaceRun r"
  by (cases r) simp_all

lemma noWhiteSpaceRun_append: "noWhiteSpaceRun (xs @ ys) \<Longrightarrow> noWhiteSpaceRun xs \<and> noWhiteSpaceRun ys"
proof (induction xs rule: noWhiteSpaceRun.induct)
  case 1
  then show ?case by simp
next
  case (2 a)
  then show ?case using noWhiteSpaceRun_tl[of a ys] by simp
next
  case (3 a b cs)
  then show ?case by simp
qed

lemma collapse_head:
  "\<not> isWhiteSpace c \<Longrightarrow> collapseWhiteSpace (c # cs) = c # collapseWhiteSpace cs"
  by simp

lemma collapse_head_not_ws:
  "xs = [] \<or> \<not> isWhiteSpace (hd xs) \<Longrightarrow>
   collapseWhiteSpace xs = [] \<or> \<not> isWhiteSpace (hd (collapseWhiteSpace xs))"
  by (cases xs) auto

lemma noWhiteSpaceRun_collapse: "noWhiteSpaceRun (collapseWhiteSpace s)"
proof (induction s rule: collapseWhiteSpace.induct)
  case 1
  then show ?case by simp
next
  case (2 c cs)
  show ?case
  proof (cases "isWhiteSpace c")
    case True
    have "dropWhile isWhiteSpace cs = [] \<or> \<not> isWhiteSpace (hd (dropWhile isWhiteSpace cs))"
      using hd_dropWhile[of isWhiteSpace cs] by blast
    then have "collapseWhiteSpace (dropWhile isWhiteSpace cs) = [] \<or>
        \<not> isWhiteSpace (hd (collapseWhiteSpace (dropWhile isWhiteSpace cs)))"
      by (rule collapse_head_not_ws)
    then show ?thesis using 2 True by (simp add: noWhiteSpaceRun_Cons2)
  next
    case False
    then show ?thesis using 2 by (simp add: noWhiteSpaceRun_Cons)
  qed
qed

lemma trim_prefix: "\<exists>zs. dropWhile isWhiteSpace s = trim s @ zs"
proof -
  let ?t = "dropWhile isWhiteSpace s"
  have "rev ?t = takeWhile isWhiteSpace (rev ?t) @ dropWhile isWhiteSpace (rev ?t)" by simp
  then have "rev (rev ?t) = rev (takeWhile isWhiteSpace (rev ?t) @ dropWhile isWhiteSpace (rev ?t))"
    by simp
  then have "?t = rev (dropWhile isWhiteSpace (rev ?t)) @ rev (takeWhile isWhiteSpace (rev ?t))"
    by (simp only: rev_rev_ident rev_append)
  then show ?thesis unfolding trim_def by blast
qed

lemma noWhiteSpaceRun_trim: "noWhiteSpaceRun s \<Longrightarrow> noWhiteSpaceRun (trim s)"
proof -
  assume a: "noWhiteSpaceRun s"
  have "s = takeWhile isWhiteSpace s @ dropWhile isWhiteSpace s" by simp
  with a have "noWhiteSpaceRun (dropWhile isWhiteSpace s)"
    using noWhiteSpaceRun_append[of "takeWhile isWhiteSpace s" "dropWhile isWhiteSpace s"] by simp
  moreover obtain zs where "dropWhile isWhiteSpace s = trim s @ zs" using trim_prefix by blast
  ultimately show ?thesis using noWhiteSpaceRun_append[of "trim s" zs] by simp
qed

lemma noWhiteSpaceRun_take: "noWhiteSpaceRun s \<Longrightarrow> noWhiteSpaceRun (take n s)"
  using noWhiteSpaceRun_append[of "take n s" "drop n s"] by simp

lemma trim_last: "trim s \<noteq> [] \<Longrightarrow> \<not> isWhiteSpace (last (trim s))"
  unfolding trim_def using hd_dropWhile[of isWhiteSpace "rev (dropWhile isWhiteSpace s)"]
  by (simp add: last_rev)

lemma trim_hd: "trim s \<noteq> [] \<Longrightarrow> \<not> isWhiteSpace (hd (trim s))"
proof -
  assume ne: "trim s \<noteq> []"
  obtain zs where z: "dropWhile isWhiteSpace s = trim s @ zs" using trim_prefix by blast
  with ne have "dropWhile isWhiteSpace s \<noteq> []" by auto
  then have "\<not> isWhiteSpace (hd (dropWhile isWhiteSpace s))" by (rule hd_dropWhile)
  then show ?thesis using z ne by simp
qed

lemma pageContent_ok:
  "length (pageContent pg) \<le> 1000 \<and>
   noWhiteSpaceRun (pageContent pg) \<and>
   (pageContent pg \<noteq> [] \<longrightarrow> \<not> isWhiteSpace (hd (pageContent pg))) \<and>
   (pageContent pg \<noteq> [] \<and> isWhiteSpace (last (pageContent pg)) \<longrightarrow> length (pageContent pg) = 1000)"
proof -
  let ?t = "trim (collapseWhiteSpace (bodyText pg))"
  have c: "pageContent pg = take 1000 ?t" by (simp add: pageContent_def substring0_def)
  have 1: "length (pageContent pg) \<le> 1000" by (simp add: c)
  have 2: "noWhiteSpaceRun (pageContent pg)"
    unfolding c by (intro noWhiteSpaceRun_take noWhiteSpaceRun_trim noWhiteSpaceRun_collapse)
  have 3: "pageContent pg \<noteq> [] \<longrightarrow> \<not> isWhiteSpace (hd (pageContent pg))"
    unfolding c using trim_hd[of "collapseWhiteSpace (bodyText pg)"] by auto
  have 4: "pageContent pg \<noteq> [] \<and> isWhiteSpace (last (pageContent pg)) \<longrightarrow> length (pageContent pg) = 1000"
  proof (cases "length ?t \<le> 1000")
    case True
    then have "pageContent pg = ?t" by (simp add: c)
    then show ?thesis using trim_last[of "collapseWhiteSpace (bodyText pg)"] by auto
  next
    case False
    then show ?thesis by (simp add: c)
  qed
  from 1 2 3 4 show ?thesis by blast
qed

section \<open>Searching\<close>

lemma searchLoop_pos:
  "int (length results) < limit \<Longrightarrow>
   searchLoop kb ql limit results =
     results @ map toResult (take (nat limit - length results) (filter (docMatches ql) (map snd kb)))"
proof (induction kb arbitrary: results)
  case Nil
  then show ?case by simp
next
  case (Cons e kb)
  obtain u d where e: "e = (u, d)" by (cases e)
  show ?case
  proof (cases "docMatches ql d")
    case False
    with Cons e show ?thesis by simp
  next
    case True
    show ?thesis
    proof (cases "int (length results) + 1 \<ge> limit")
      case True
      with Cons.prems have "nat limit - length results = 1" by linarith
      with True \<open>docMatches ql d\<close> e show ?thesis by simp
    next
      case False
      then have lt: "int (length (results @ [toResult d])) < limit" by simp
      have "nat limit - length results = Suc (nat limit - length (results @ [toResult d]))"
        using False by simp
      with Cons.IH[OF lt] False \<open>docMatches ql d\<close> e show ?thesis by simp
    qed
  qed
qed

lemma searchLoop_nonpos:
  "limit \<le> 0 \<Longrightarrow>
   searchLoop kb ql limit [] =
     (case kb of [] \<Rightarrow> [] | (u, d) # _ \<Rightarrow> if docMatches ql d then [toResult d] else [])"
  by (cases kb) (auto)

lemma docMatches_iff:
  "docMatches (toLowerCase q) d \<longleftrightarrow>
     (\<exists>ps ss. toLowerCase (title d) = ps @ toLowerCase q @ ss) \<or>
     (\<exists>ps ss. toLowerCase (content d) = ps @ toLowerCase q @ ss)"
  by (simp add: docMatches_def includesStr_iff)

text \<open>
  C4, for a limit of at least one: the search returns the first \<open>n\<close> matching documents in
  the order of the knowledge base, each as title, excerpt and address, so at most \<open>n\<close>
  results; a document matches when the lower-cased query occurs in its lower-cased title or
  content; the empty query matches every document.
\<close>

theorem search_first_matches:
  "1 \<le> n \<Longrightarrow>
   searchKnowledgeBase kb q n =
     map toResult (take (nat n) (filter (docMatches (toLowerCase q)) (map snd kb))) \<and>
   int (length (searchKnowledgeBase kb q n)) \<le> n \<and>
   (\<forall>d. docMatches (toLowerCase q) d \<longleftrightarrow>
     (\<exists>ps ss. toLowerCase (title d) = ps @ toLowerCase q @ ss) \<or>
     (\<exists>ps ss. toLowerCase (content d) = ps @ toLowerCase q @ ss)) \<and>
   (\<forall>d. docMatches (toLowerCase []) d)"
proof -
  assume n: "1 \<le> n"
  have eq: "searchKnowledgeBase kb q n =
     map toResult (take (nat n) (filter (docMatches (toLowerCase q)) (map snd kb)))"
    using n searchLoop_pos[of "[]" n kb "toLowerCase q"] by (simp add: searchKnowledgeBase_def)
  have len: "int (length (searchKnowledgeBase kb q n)) \<le> n"
    using n unfolding eq by simp
  have emp: "\<forall>d. docMatches (toLowerCase []) d"
    by (simp add: docMatches_def toLowerCase_Nil includesStr_empty)
  from eq len emp docMatches_iff show ?thesis by blast
qed

theorem search_first_matches_witness:
  "(1::int) \<le> 5 \<and>
   searchKnowledgeBase exampleBase ''DESK'' 5 =
     [\<lparr>res_title = ''Condeco Home'', excerpt = ''Book a desk with Condeco...'',
       res_url = ''https://knowledge.eptura.com/condeco''\<rparr>]"
proof -
  have m: "filter (docMatches (toLowerCase ''DESK'')) (map snd exampleBase) = [deskDoc]"
    by code_simp
  have t: "map toResult [deskDoc] = [\<lparr>res_title = ''Condeco Home'', excerpt = ''Book a desk with Condeco...'',
       res_url = ''https://knowledge.eptura.com/condeco''\<rparr>]"
    by code_simp
  show ?thesis
    using search_first_matches[of 5 exampleBase "''DESK''"] m t by simp
qed

text \<open>C4 as stated, for every limit: with the limit 0 and a first document that matches, one
  result is returned.\<close>

theorem search_limit_zero_counterexample:
  "\<not> int (length (searchKnowledgeBase [(''https://knowledge.eptura.com/condeco'', deskDoc)] ''desk'' 0)) \<le> 0"
  by code_simp

lemma filter_all_matches: "filter (docMatches (toLowerCase [])) ds = ds"
  by (simp add: docMatches_def toLowerCase_Nil includesStr_empty)

text \<open>C5 as stated: the empty query on a knowledge base that is not empty gives results.\<close>

theorem search_empty_query_counterexample:
  "searchKnowledgeBase exampleBase [] 3 \<noteq> []"
  by code_simp

text \<open>
  C5, amended: the search in an empty knowledge base returns the empty sequence for every
  query and limit; the empty query matches every document, and returns the first \<open>n\<close>
  documents of the knowledge base (the first one when \<open>n\<close> is below one). The functions are
  total: no case raises an error.
\<close>

theorem search_empty_store_or_query:
  "searchKnowledgeBase [] q n = [] \<and>
   searchKnowledgeBase kb [] n = map toResult (take (nat (max 1 n)) (map snd kb))"
proof -
  have a: "searchKnowledgeBase [] q n = []"
    by (simp add: searchKnowledgeBase_def)
  have b: "searchKnowledgeBase kb [] n = map toResult (take (nat (max 1 n)) (map snd kb))"
  proof (cases "1 \<le> n")
    case True
    then have "max 1 n = n" by simp
    with True searchLoop_pos[of "[]" n kb "toLowerCase []"] show ?thesis
      by (simp add: searchKnowledgeBase_def filter_all_matches)
  next
    case False
    then have n: "n \<le> 0" and m: "nat (max 1 n) = Suc 0" by simp_all
    have d: "\<And>d. docMatches (toLowerCase []) d"
      by (simp add: docMatches_def toLowerCase_Nil includesStr_empty)
    show ?thesis
      unfolding searchKnowledgeBase_def searchLoop_nonpos[OF n] m
      by (cases kb) (auto simp: d)
  qed
  from a b show ?thesis by simp
qed

text \<open>C10 as stated: with the limit 0, a document that matches in second place and a first
  document that does not match, no result is returned.\<close>

theorem search_nonpositive_limit_counterexample:
  "docMatches (toLowerCase ''desk'') deskDoc \<and>
   (''https://knowledge.eptura.com/condeco'', deskDoc) \<in> set exampleBase \<and>
   searchKnowledgeBase exampleBase ''desk'' 0 = []"
  by code_simp

text \<open>
  C10, amended: the limit is tested at every entry, after the match test. For a limit
  \<open>n \<le> 0\<close> the loop ends at the first entry: the result is that document when it matches,
  and empty otherwise, also when a later document matches. The bound of at most \<open>n\<close> results
  holds for \<open>n \<ge> 1\<close>.
\<close>

theorem search_nonpositive_limit:
  "(n \<le> 0 \<longrightarrow>
      searchKnowledgeBase kb q n =
        (case kb of [] \<Rightarrow> []
         | (u, d) # rest \<Rightarrow> if docMatches (toLowerCase q) d then [toResult d] else [])) \<and>
   (1 \<le> n \<longrightarrow> int (length (searchKnowledgeBase kb q n)) \<le> n)"
proof -
  have "int (length (searchKnowledgeBase kb q n)) \<le> n" if n: "1 \<le> n"
    using n searchLoop_pos[of "[]" n kb "toLowerCase q"] by (simp add: searchKnowledgeBase_def)
  then show ?thesis
    by (simp add: searchKnowledgeBase_def searchLoop_nonpos)
qed

theorem search_nonpositive_limit_witness:
  "(0::int) \<le> 0 \<and> searchKnowledgeBase (rev exampleBase) ''desk'' 0 = [toResult deskDoc] \<and>
   (1::int) \<le> 1 \<and> int (length (searchKnowledgeBase exampleBase [] 1)) \<le> 1"
proof -
  have a: "searchKnowledgeBase (rev exampleBase) ''desk'' 0 = [toResult deskDoc]"
    using search_nonpositive_limit[of 0 "rev exampleBase" "''desk''"] by code_simp
  have b: "int (length (searchKnowledgeBase exampleBase [] 1)) \<le> 1"
    using search_nonpositive_limit[of 1 exampleBase "[]"] by simp
  from a b show ?thesis by simp
qed

lemma mapHas_mapSet_filter:
  "distinct (map fst kb) \<Longrightarrow> P doc \<Longrightarrow> \<forall>(k, d) \<in> set kb. k \<noteq> u \<longrightarrow> \<not> P d \<Longrightarrow>
   filter P (map snd (mapSet u doc kb)) = [doc]"
proof (induction kb)
  case Nil
  then show ?case by simp
next
  case (Cons e kb)
  obtain k d where e: "e = (k, d)" by (cases e)
  show ?case
  proof (cases "k = u")
    case True
    with Cons.prems e have "\<forall>(k', d') \<in> set kb. k' \<noteq> u" by force
    with Cons.prems(3) have "\<forall>d' \<in> set (map snd kb). \<not> P d'" by force
    then have "filter P (map snd kb) = []" by (simp add: filter_empty_conv)
    with True e Cons.prems(2) show ?thesis by simp
  next
    case False
    with Cons.prems e have "\<not> P d" by auto
    moreover have "filter P (map snd (mapSet u doc kb)) = [doc]"
      using Cons by auto
    ultimately show ?thesis using False e by simp
  qed
qed

text \<open>
  C7: in a knowledge base (its keys distinct, as those of a \<^verbatim>\<open>Map\<close> are), after the document
  for the address \<open>u\<close> is written, the search for a string that occurs, case ignored, in the
  title of that document and in neither title nor content of the entry of any other
  address, returns exactly one result, whose address is \<open>u\<close>. The limit is at least one, as
  in every call of the program (3 and 5).
\<close>

theorem store_then_search:
  assumes "distinct (map fst kb)"
    and "doc_url doc = u"
    and "includesStr (toLowerCase (title doc)) (toLowerCase s)"
    and "\<forall>(k, d) \<in> set kb. k \<noteq> u \<longrightarrow> \<not> docMatches (toLowerCase s) d"
    and "1 \<le> n"
  shows "searchKnowledgeBase (mapSet u doc kb) s n = [toResult doc] \<and>
         res_url (toResult doc) = u"
proof -
  have m: "docMatches (toLowerCase s) doc" using assms(3) by (simp add: docMatches_def)
  have "filter (docMatches (toLowerCase s)) (map snd (mapSet u doc kb)) = [doc]"
    by (rule mapHas_mapSet_filter[OF assms(1) m assms(4)])
  moreover have "0 < nat n" using assms(5) by simp
  ultimately show ?thesis
    using searchLoop_pos[of "[]" n "mapSet u doc kb" "toLowerCase s"] assms(2,5)
    by (cases "nat n") (simp_all add: searchKnowledgeBase_def toResult_def)
qed

theorem store_then_search_witness:
  "distinct (map fst exampleBase) \<and>
   searchKnowledgeBase (mapSet ''https://knowledge.eptura.com/condeco''
       (deskDoc\<lparr>title := ''Workspace booking''\<rparr>) exampleBase) ''WORKSPACE'' 3
     = [toResult (deskDoc\<lparr>title := ''Workspace booking''\<rparr>)] \<and>
   res_url (toResult (deskDoc\<lparr>title := ''Workspace booking''\<rparr>)) = ''https://knowledge.eptura.com/condeco''"
proof -
  have 1: "distinct (map fst exampleBase)" by code_simp
  have 2: "doc_url (deskDoc\<lparr>title := ''Workspace booking''\<rparr>) = ''https://knowledge.eptura.com/condeco''"
    by code_simp
  have 3: "includesStr (toLowerCase (title (deskDoc\<lparr>title := ''Workspace booking''\<rparr>))) (toLowerCase ''WORKSPACE'')"
    by code_simp
  have 4: "\<forall>(k, d) \<in> set exampleBase. k \<noteq> ''https://knowledge.eptura.com/condeco'' \<longrightarrow> \<not> docMatches (toLowerCase ''WORKSPACE'') d"
    by code_simp
  have 5: "(1::int) \<le> 3" by simp
  from store_then_search[OF 1 2 3 4 5] 1 show ?thesis by simp
qed

section \<open>Crawling\<close>

lemma crawled_refl: "crawled P st st"
  unfolding crawled_def by auto

lemma crawled_weaken: "crawled P st st' \<Longrightarrow> (\<And>e. P e \<Longrightarrow> Q e) \<Longrightarrow> crawled Q st st'"
  unfolding crawled_def by blast

lemma crawled_trans:
  assumes "crawled P a b" "crawled P b c"
  shows "crawled P a c"
proof -
  from assms(1) obtain n1 where
    l1: "fetchLog b = fetchLog a @ n1" and p1: "\<forall>e \<in> set n1. P e"
    and o1: "\<forall>e \<in> set n1. f_ok e \<longrightarrow> f_url e \<in> storedUrls b"
    and u1: "\<forall>u. (\<forall>e \<in> set n1. f_url e = u \<longrightarrow> \<not> f_ok e) \<longrightarrow>
             map_of (knowledgeBase b) u = map_of (knowledgeBase a) u"
    unfolding crawled_def by blast
  from assms(2) obtain n2 where
    l2: "fetchLog c = fetchLog b @ n2" and p2: "\<forall>e \<in> set n2. P e"
    and o2: "\<forall>e \<in> set n2. f_ok e \<longrightarrow> f_url e \<in> storedUrls c"
    and u2: "\<forall>u. (\<forall>e \<in> set n2. f_url e = u \<longrightarrow> \<not> f_ok e) \<longrightarrow>
             map_of (knowledgeBase c) u = map_of (knowledgeBase b) u"
    unfolding crawled_def by blast
  from assms have s: "storedUrls a \<subseteq> storedUrls b" "storedUrls b \<subseteq> storedUrls c"
    and t: "lastScrapeTime c = lastScrapeTime a"
    and d: "distinct (map fst (knowledgeBase a)) \<longrightarrow> distinct (map fst (knowledgeBase c))"
    unfolding crawled_def by auto
  from assms have w1: "\<forall>(k, d) \<in> set (knowledgeBase b).
        (k, d) \<in> set (knowledgeBase a) \<or> (doc_url d = k \<and> (\<exists>pg. content d = pageContent pg))"
    and w2: "\<forall>(k, d) \<in> set (knowledgeBase c).
        (k, d) \<in> set (knowledgeBase b) \<or> (doc_url d = k \<and> (\<exists>pg. content d = pageContent pg))"
    unfolding crawled_def by blast+
  have w: "\<forall>(k, d) \<in> set (knowledgeBase c).
        (k, d) \<in> set (knowledgeBase a) \<or> (doc_url d = k \<and> (\<exists>pg. content d = pageContent pg))"
    using w1 w2 by blast
  have l: "fetchLog c = fetchLog a @ (n1 @ n2)" using l1 l2 by simp
  have p: "\<forall>e \<in> set (n1 @ n2). P e" using p1 p2 by auto
  have o: "\<forall>e \<in> set (n1 @ n2). f_ok e \<longrightarrow> f_url e \<in> storedUrls c"
    using o1 o2 s by auto
  have u: "\<forall>u. (\<forall>e \<in> set (n1 @ n2). f_url e = u \<longrightarrow> \<not> f_ok e) \<longrightarrow>
             map_of (knowledgeBase c) u = map_of (knowledgeBase a) u"
    using u1 u2 by auto
  show ?thesis
    unfolding crawled_def using l p o u s t d w by blast
qed

lemma crawled_stored: "crawled P st st' \<Longrightarrow> storedUrls st \<subseteq> storedUrls st'"
  unfolding crawled_def by blast

lemma crawled_fold:
  assumes "\<And>x s. x \<in> set xs \<Longrightarrow> old \<subseteq> storedUrls s \<Longrightarrow> crawled P s (f x s)"
    and "old \<subseteq> storedUrls st"
  shows "crawled P st (fold f xs st)"
  using assms
proof (induction xs arbitrary: st)
  case Nil
  then show ?case by (simp add: crawled_refl)
next
  case (Cons x xs)
  have 1: "crawled P st (f x st)" using Cons.prems by simp
  then have "old \<subseteq> storedUrls (f x st)" using Cons.prems(2) crawled_stored by blast
  then have "crawled P (f x st) (fold f xs (f x st))"
    using Cons.IH Cons.prems(1) by simp
  with 1 show ?case using crawled_trans by auto
qed

lemma map_of_mapSet: "map_of (mapSet k v kvs) = (map_of kvs)(k \<mapsto> v)"
  by (induction k v kvs rule: mapSet.induct) (auto simp: fun_eq_iff)

lemma keys_mapSet: "fst ` set (mapSet k v kvs) = insert k (fst ` set kvs)"
  by (induction k v kvs rule: mapSet.induct) auto

lemma set_mapSet: "set (mapSet k v kvs) \<subseteq> insert (k, v) (set kvs)"
  by (induction k v kvs rule: mapSet.induct) auto

lemma distinct_mapSet: "distinct (map fst kvs) \<Longrightarrow> distinct (map fst (mapSet k v kvs))"
  by (induction k v kvs rule: mapSet.induct) (auto simp: keys_mapSet)

lemma collectLinks_fresh: "l \<in> set (collectLinks as kb) \<Longrightarrow> url l \<notin> fst ` set kb"
  by (induction as kb rule: collectLinks.induct)
    (force simp: mapHas_def split: option.splits if_splits)+

lemma scrape_stop: "m < d \<Longrightarrow> scrapeSectionRecursively web sec d m st = st"
  by (simp add: scrapeSectionRecursively.simps)

lemma scrape_fail:
  "d \<le> m \<Longrightarrow> web (length (fetchLog st)) (url sec) = None \<Longrightarrow>
   scrapeSectionRecursively web sec d m st =
     st\<lparr>fetchLog := fetchLog st @ [\<lparr>f_url = url sec, f_depth = d, f_ok = False\<rparr>]\<rparr>"
  by (simp add: scrapeSectionRecursively.simps)

lemma scrape_ok:
  "d \<le> m \<Longrightarrow> web (length (fetchLog st)) (url sec) = Some pg \<Longrightarrow>
   scrapeSectionRecursively web sec d m st =
     fold (\<lambda>link. scrapeSectionRecursively web link (d + 1) m)
       (collectLinks (anchors pg) (knowledgeBase (stored sec d pg st))) (stored sec d pg st)"
  by (simp add: scrapeSectionRecursively.simps[of web sec d m st] stored_def Let_def)

lemma crawled_fail:
  "P \<lparr>f_url = u, f_depth = d, f_ok = False\<rparr> \<Longrightarrow>
   crawled P st (st\<lparr>fetchLog := fetchLog st @ [\<lparr>f_url = u, f_depth = d, f_ok = False\<rparr>]\<rparr>)"
  unfolding crawled_def storedUrls_def by auto

lemma crawled_stored_step:
  assumes "P \<lparr>f_url = url sec, f_depth = d, f_ok = True\<rparr>"
  shows "crawled P st (stored sec d pg st)"
proof -
  let ?doc = "\<lparr>title = pageTitle pg sec, content = pageContent pg, doc_url = url sec\<rparr>"
  have kb: "knowledgeBase (stored sec d pg st) = mapSet (url sec) ?doc (knowledgeBase st)"
    and lg: "fetchLog (stored sec d pg st) = fetchLog st @ [\<lparr>f_url = url sec, f_depth = d, f_ok = True\<rparr>]"
    and ts: "lastScrapeTime (stored sec d pg st) = lastScrapeTime st"
    by (simp_all add: stored_def)
  have k: "storedUrls (stored sec d pg st) = insert (url sec) (storedUrls st)"
    by (simp add: storedUrls_def kb keys_mapSet)
  have w: "\<forall>(k, dd) \<in> set (knowledgeBase (stored sec d pg st)).
        (k, dd) \<in> set (knowledgeBase st) \<or> (doc_url dd = k \<and> (\<exists>pg. content dd = pageContent pg))"
  proof -
    have "(k, dd) \<in> set (knowledgeBase st) \<or> (doc_url dd = k \<and> (\<exists>pg. content dd = pageContent pg))"
      if "(k, dd) \<in> set (mapSet (url sec) ?doc (knowledgeBase st))" for k dd
    proof -
      from that set_mapSet[of "url sec" ?doc "knowledgeBase st"]
      have "(k, dd) = (url sec, ?doc) \<or> (k, dd) \<in> set (knowledgeBase st)" by blast
      then show ?thesis
      proof
        assume "(k, dd) = (url sec, ?doc)"
        then have "doc_url dd = k" and "content dd = pageContent pg" by simp_all
        then show ?thesis by blast
      qed simp
    qed
    then show ?thesis unfolding kb by blast
  qed
  have u: "\<forall>u. (\<forall>e \<in> set [\<lparr>f_url = url sec, f_depth = d, f_ok = True\<rparr>]. f_url e = u \<longrightarrow> \<not> f_ok e) \<longrightarrow>
             map_of (knowledgeBase (stored sec d pg st)) u = map_of (knowledgeBase st) u"
    by (simp add: kb map_of_mapSet)
  have dd: "distinct (map fst (knowledgeBase st)) \<longrightarrow> distinct (map fst (knowledgeBase (stored sec d pg st)))"
    by (simp add: kb distinct_mapSet)
  have p: "\<forall>e \<in> set [\<lparr>f_url = url sec, f_depth = d, f_ok = True\<rparr>]. P e" using assms by simp
  have o: "\<forall>e \<in> set [\<lparr>f_url = url sec, f_depth = d, f_ok = True\<rparr>]. f_ok e \<longrightarrow> f_url e \<in> storedUrls (stored sec d pg st)"
    by (simp add: k)
  show ?thesis
    unfolding crawled_def using lg p o u k ts dd w by blast
qed

lemma storedUrls_stored: "storedUrls (stored sec d pg st) = insert (url sec) (storedUrls st)"
  by (simp add: storedUrls_def stored_def keys_mapSet)

lemma scrape_crawled:
  "old \<subseteq> storedUrls st \<Longrightarrow>
   crawled (\<lambda>e. (f_depth e = d \<and> f_url e = url sec) \<or>
                (d < f_depth e \<and> f_depth e \<le> m \<and> f_url e \<notin> old \<and> f_url e \<noteq> url sec))
     st (scrapeSectionRecursively web sec d m st)"
proof (induction web sec d m st arbitrary: old rule: scrapeSectionRecursively.induct)
  case (1 web sec depth maxDepth st)
  let ?P = "\<lambda>e. (f_depth e = depth \<and> f_url e = url sec) \<or>
                (depth < f_depth e \<and> f_depth e \<le> maxDepth \<and> f_url e \<notin> old \<and> f_url e \<noteq> url sec)"
  show ?case
  proof (cases "maxDepth < depth")
    case True
    then show ?thesis by (simp add: scrape_stop crawled_refl)
  next
    case False
    then have le: "depth \<le> maxDepth" by simp
    show ?thesis
    proof (cases "web (length (fetchLog st)) (url sec)")
      case None
      have "scrapeSectionRecursively web sec depth maxDepth st =
          st\<lparr>fetchLog := fetchLog st @ [\<lparr>f_url = url sec, f_depth = depth, f_ok = False\<rparr>]\<rparr>"
        using le None by (rule scrape_fail)
      then show ?thesis by (simp add: crawled_fail)
    next
      case (Some pg)
      let ?st1 = "stored sec depth pg st"
      let ?links = "collectLinks (anchors pg) (knowledgeBase ?st1)"
      have st1_eq: "?st1 = st\<lparr>fetchLog := fetchLog st @ [\<lparr>f_url = url sec, f_depth = depth, f_ok = True\<rparr>],
              knowledgeBase := mapSet (url sec)
                 \<lparr>title = pageTitle pg sec, content = pageContent pg, doc_url = url sec\<rparr>
                 (knowledgeBase st)\<rparr>"
        by (simp add: stored_def)
      have step1: "crawled ?P st ?st1" by (rule crawled_stored_step) simp
      have old1: "insert (url sec) old \<subseteq> storedUrls ?st1"
        using "1.prems" by (auto simp: storedUrls_stored)
      have stepL: "crawled ?P ?st1
          (fold (\<lambda>link. scrapeSectionRecursively web link (depth + 1) maxDepth) ?links ?st1)"
      proof (rule crawled_fold[where old = "insert (url sec) old"])
        show "insert (url sec) old \<subseteq> storedUrls ?st1" by (rule old1)
      next
        fix x s
        assume x: "x \<in> set ?links" and s: "insert (url sec) old \<subseteq> storedUrls s"
        show "crawled ?P s (scrapeSectionRecursively web x (depth + 1) maxDepth s)"
        proof (cases "maxDepth < depth + 1")
          case True
          then show ?thesis by (simp add: scrape_stop crawled_refl)
        next
          case F2: False
          have "url x \<notin> storedUrls ?st1"
            using collectLinks_fresh[OF x] by (simp add: storedUrls_def)
          then have fresh: "url x \<notin> insert (url sec) old"
            using old1 by blast
          have "crawled (\<lambda>e. (f_depth e = depth + 1 \<and> f_url e = url x) \<or>
                (depth + 1 < f_depth e \<and> f_depth e \<le> maxDepth \<and> f_url e \<notin> insert (url sec) old \<and> f_url e \<noteq> url x))
             s (scrapeSectionRecursively web x (depth + 1) maxDepth s)"
            using "1.IH"[OF False Some st1_eq refl x s] .
          then show ?thesis
            by (rule crawled_weaken) (use F2 fresh in auto)
        qed
      qed
      have "scrapeSectionRecursively web sec depth maxDepth st =
          fold (\<lambda>link. scrapeSectionRecursively web link (depth + 1) maxDepth) ?links ?st1"
        using le Some by (rule scrape_ok)
      then show ?thesis
        using crawled_trans[OF step1 stepL] by simp
    qed
  qed
qed

lemma crawled_log: "crawled P st st' \<Longrightarrow> fetchLog st' = fetchLog st @ newFetches st st'"
  unfolding crawled_def newFetches_def by auto

lemma crawled_new: "crawled P st st' \<Longrightarrow> e \<in> set (newFetches st st') \<Longrightarrow> P e"
  unfolding crawled_def newFetches_def by auto

lemma crawled_ok_stored:
  "crawled P st st' \<Longrightarrow> e \<in> set (newFetches st st') \<Longrightarrow> f_ok e \<Longrightarrow> f_url e \<in> storedUrls st'"
  unfolding crawled_def newFetches_def by auto

lemma crawled_unchanged:
  "crawled P st st' \<Longrightarrow> \<forall>e \<in> set (newFetches st st'). f_url e = u \<longrightarrow> \<not> f_ok e \<Longrightarrow>
   map_of (knowledgeBase st') u = map_of (knowledgeBase st) u"
  unfolding crawled_def newFetches_def by auto

lemma crawled_docs:
  "crawled P st st' \<Longrightarrow> (k, d) \<in> set (knowledgeBase st') \<Longrightarrow>
   (k, d) \<in> set (knowledgeBase st) \<or> (doc_url d = k \<and> (\<exists>pg. content d = pageContent pg))"
  unfolding crawled_def by blast

lemma crawled_distinct:
  "crawled P st st' \<Longrightarrow> distinct (map fst (knowledgeBase st)) \<Longrightarrow>
   distinct (map fst (knowledgeBase st'))"
  unfolding crawled_def by blast

lemma newFetches_trans:
  "crawled P a b \<Longrightarrow> crawled Q b c \<Longrightarrow> newFetches a c = newFetches a b @ newFetches b c"
proof -
  assume "crawled P a b" and "crawled Q b c"
  then obtain n1 n2 where "fetchLog b = fetchLog a @ n1" and "fetchLog c = fetchLog b @ n2"
    unfolding crawled_def by blast
  then show ?thesis by (simp add: newFetches_def)
qed

lemma sections_crawled:
  "crawled (\<lambda>e. (f_depth e = 0 \<and> f_url e \<in> url ` set secs) \<or>
                (f_depth e = 1 \<and> f_url e \<notin> storedUrls st))
     st (scrapeSections web secs st)"
  unfolding scrapeSections_def
proof (rule crawled_fold[where old = "storedUrls st"])
  show "storedUrls st \<subseteq> storedUrls st" by simp
next
  fix x s
  assume x: "x \<in> set secs" and s: "storedUrls st \<subseteq> storedUrls s"
  show "crawled (\<lambda>e. (f_depth e = 0 \<and> f_url e \<in> url ` set secs) \<or>
                (f_depth e = 1 \<and> f_url e \<notin> storedUrls st))
     s (scrapeSectionRecursively web x 0 1 s)"
    by (rule crawled_weaken[OF scrape_crawled[OF s]]) (use x in auto)
qed

lemma pass_fetchLog:
  "fetchLog (scrapeEpturaKnowledge web now st) = fetchLog (scrapeSections web KNOWLEDGE_SECTIONS st)"
  by (simp add: scrapeEpturaKnowledge_def)

lemma pass_knowledgeBase:
  "knowledgeBase (scrapeEpturaKnowledge web now st) =
   knowledgeBase (scrapeSections web KNOWLEDGE_SECTIONS st)"
  by (simp add: scrapeEpturaKnowledge_def)

lemma passFetches_sections:
  "passFetches web now st = newFetches st (scrapeSections web KNOWLEDGE_SECTIONS st)"
  by (simp add: passFetches_def newFetches_def pass_fetchLog)

lemma links_crawled:
  "crawled (\<lambda>e. d < f_depth e \<and> f_url e \<notin> storedUrls (stored sec d pg st))
     (stored sec d pg st)
     (fold (\<lambda>link. scrapeSectionRecursively web link (d + 1) m)
        (collectLinks (anchors pg) (knowledgeBase (stored sec d pg st))) (stored sec d pg st))"
proof (rule crawled_fold[where old = "storedUrls (stored sec d pg st)"])
  show "storedUrls (stored sec d pg st) \<subseteq> storedUrls (stored sec d pg st)" by simp
next
  fix x s
  assume x: "x \<in> set (collectLinks (anchors pg) (knowledgeBase (stored sec d pg st)))"
    and s: "storedUrls (stored sec d pg st) \<subseteq> storedUrls s"
  have fresh: "url x \<notin> storedUrls (stored sec d pg st)"
    using collectLinks_fresh[OF x] by (simp add: storedUrls_def)
  show "crawled (\<lambda>e. d < f_depth e \<and> f_url e \<notin> storedUrls (stored sec d pg st))
     s (scrapeSectionRecursively web x (d + 1) m s)"
    by (rule crawled_weaken[OF scrape_crawled[OF s]]) (use fresh in auto)
qed

lemma scrape_root:
  assumes "d \<le> m"
  shows "\<exists>rest. newFetches st (scrapeSectionRecursively web sec d m st) =
     \<lparr>f_url = url sec, f_depth = d, f_ok = (web (length (fetchLog st)) (url sec) \<noteq> None)\<rparr> # rest \<and>
     (\<forall>e \<in> set rest. d < f_depth e)"
proof (cases "web (length (fetchLog st)) (url sec)")
  case None
  have "scrapeSectionRecursively web sec d m st =
     st\<lparr>fetchLog := fetchLog st @ [\<lparr>f_url = url sec, f_depth = d, f_ok = False\<rparr>]\<rparr>"
    using assms None by (rule scrape_fail)
  then show ?thesis using None by (simp add: newFetches_def)
next
  case (Some pg)
  let ?st1 = "stored sec d pg st"
  let ?f = "\<lambda>link. scrapeSectionRecursively web link (d + 1) m"
  let ?links = "collectLinks (anchors pg) (knowledgeBase ?st1)"
  have eq: "scrapeSectionRecursively web sec d m st = fold ?f ?links ?st1"
    using assms Some by (rule scrape_ok)
  obtain new where n: "fetchLog (fold ?f ?links ?st1) = fetchLog ?st1 @ new"
    and p: "\<forall>e \<in> set new. d < f_depth e"
    using links_crawled[of d sec pg st web m] unfolding crawled_def by blast
  from n have "fetchLog (fold ?f ?links ?st1) =
      fetchLog st @ \<lparr>f_url = url sec, f_depth = d, f_ok = True\<rparr> # new"
    by (simp add: stored_def)
  then show ?thesis using Some p unfolding eq by (simp add: newFetches_def)
qed

lemma scrape_any: "crawled (\<lambda>e. True) st (scrapeSectionRecursively web sec d m st)"
  by (rule crawled_weaken[OF scrape_crawled[of "{}"]]) simp_all

lemma fold_any:
  "crawled (\<lambda>e. True) st (fold (\<lambda>x. scrapeSectionRecursively web x d m) xs st)"
  by (rule crawled_fold[where old = "{}"]) (simp_all add: scrape_any)

lemma fold_fetch_all:
  "d \<le> m \<Longrightarrow> x \<in> set xs \<Longrightarrow>
   \<exists>e \<in> set (newFetches st (fold (\<lambda>x. scrapeSectionRecursively web x d m) xs st)).
      f_url e = url x \<and> f_depth e = d"
proof (induction xs arbitrary: st)
  case Nil
  then show ?case by simp
next
  case (Cons y ys)
  let ?f = "\<lambda>x. scrapeSectionRecursively web x d m"
  let ?s = "scrapeSectionRecursively web y d m st"
  have sp: "newFetches st (fold ?f (y # ys) st) = newFetches st ?s @ newFetches ?s (fold ?f ys ?s)"
  proof -
    have "crawled (\<lambda>e. True) st ?s" by (rule scrape_any)
    moreover have "crawled (\<lambda>e. True) ?s (fold ?f ys ?s)" by (rule fold_any)
    ultimately have "newFetches st (fold ?f ys ?s) = newFetches st ?s @ newFetches ?s (fold ?f ys ?s)"
      by (rule newFetches_trans)
    then show ?thesis by simp
  qed
  show ?case
  proof (cases "x = y")
    case True
    obtain rest where "newFetches st ?s =
       \<lparr>f_url = url y, f_depth = d, f_ok = (web (length (fetchLog st)) (url y) \<noteq> None)\<rparr> # rest"
      using scrape_root[OF Cons.prems(1), of st web y] by auto
    then show ?thesis unfolding sp using True by auto
  next
    case False
    with Cons.prems have "x \<in> set ys" by simp
    from Cons.IH[OF Cons.prems(1) this, of ?s] show ?thesis unfolding sp by auto
  qed
qed

lemma sections_fetch_all:
  "sec \<in> set secs \<Longrightarrow>
   \<exists>e \<in> set (newFetches st (scrapeSections web secs st)). f_url e = url sec \<and> f_depth e = 0"
  unfolding scrapeSections_def by (rule fold_fetch_all) simp_all

lemma links_fetch_all:
  assumes "d < m" and "web (length (fetchLog st)) (url sec) = Some pg"
    and "l \<in> set (collectLinks (anchors pg) (knowledgeBase (stored sec d pg st)))"
  shows "\<exists>e \<in> set (newFetches st (scrapeSectionRecursively web sec d m st)).
      f_url e = url l \<and> f_depth e = d + 1"
proof -
  let ?st1 = "stored sec d pg st"
  let ?f = "\<lambda>link. scrapeSectionRecursively web link (d + 1) m"
  let ?links = "collectLinks (anchors pg) (knowledgeBase ?st1)"
  have eq: "scrapeSectionRecursively web sec d m st = fold ?f ?links ?st1"
    using assms(1,2) by (simp add: scrape_ok)
  have "crawled (\<lambda>e. True) st ?st1" by (rule crawled_stored_step) simp
  then have sp: "newFetches st (fold ?f ?links ?st1) = newFetches st ?st1 @ newFetches ?st1 (fold ?f ?links ?st1)"
    using fold_any by (rule newFetches_trans)
  have "\<exists>e \<in> set (newFetches ?st1 (fold ?f ?links ?st1)). f_url e = url l \<and> f_depth e = d + 1"
    using assms(1,3) by (intro fold_fetch_all) simp_all
  then show ?thesis unfolding eq sp by auto
qed

lemma firstPass_fetches:
  "passFetches exampleWeb 1 initialState =
     [\<lparr>f_url = ''https://knowledge.eptura.com/condeco'', f_depth = 0, f_ok = True\<rparr>,
      \<lparr>f_url = ''https://knowledge.eptura.com/condeco/faq'', f_depth = 1, f_ok = True\<rparr>,
      \<lparr>f_url = ''https://knowledge.eptura.com/condeco/faq'', f_depth = 1, f_ok = True\<rparr>,
      \<lparr>f_url = ''https://knowledge.eptura.com/proxyclick'', f_depth = 0, f_ok = False\<rparr>,
      \<lparr>f_url = ''https://knowledge.eptura.com/serraview'', f_depth = 0, f_ok = False\<rparr>,
      \<lparr>f_url = ''https://knowledge.eptura.com/ioffice'', f_depth = 0, f_ok = False\<rparr>,
      \<lparr>f_url = ''https://knowledge.eptura.com/managerplus'', f_depth = 0, f_ok = False\<rparr>,
      \<lparr>f_url = ''https://knowledge.eptura.com/spaceiq'', f_depth = 0, f_ok = False\<rparr>,
      \<lparr>f_url = ''https://knowledge.eptura.com/archibus'', f_depth = 0, f_ok = False\<rparr>]"
  by code_simp

lemma firstPass_base:
  "knowledgeBase firstPass =
     [(''https://knowledge.eptura.com/condeco'',
       \<lparr>title = ''Condeco HomeClose'', content = ''Book a desk with Condeco'',
        doc_url = ''https://knowledge.eptura.com/condeco''\<rparr>),
      (''https://knowledge.eptura.com/condeco/faq'',
       \<lparr>title = ''Questions'', content = ''Frequent questions'',
        doc_url = ''https://knowledge.eptura.com/condeco/faq''\<rparr>)]"
  by code_simp

lemma secondPass_fetches:
  "passFetches exampleWeb 2 firstPass =
     [\<lparr>f_url = ''https://knowledge.eptura.com/condeco'', f_depth = 0, f_ok = True\<rparr>,
      \<lparr>f_url = ''https://knowledge.eptura.com/proxyclick'', f_depth = 0, f_ok = False\<rparr>,
      \<lparr>f_url = ''https://knowledge.eptura.com/serraview'', f_depth = 0, f_ok = False\<rparr>,
      \<lparr>f_url = ''https://knowledge.eptura.com/ioffice'', f_depth = 0, f_ok = False\<rparr>,
      \<lparr>f_url = ''https://knowledge.eptura.com/managerplus'', f_depth = 0, f_ok = False\<rparr>,
      \<lparr>f_url = ''https://knowledge.eptura.com/spaceiq'', f_depth = 0, f_ok = False\<rparr>,
      \<lparr>f_url = ''https://knowledge.eptura.com/archibus'', f_depth = 0, f_ok = False\<rparr>]"
  by code_simp

lemma downPass_fetches:
  "passFetches downWeb 2 firstPass =
     [\<lparr>f_url = ''https://knowledge.eptura.com/condeco'', f_depth = 0, f_ok = False\<rparr>,
      \<lparr>f_url = ''https://knowledge.eptura.com/proxyclick'', f_depth = 0, f_ok = False\<rparr>,
      \<lparr>f_url = ''https://knowledge.eptura.com/serraview'', f_depth = 0, f_ok = False\<rparr>,
      \<lparr>f_url = ''https://knowledge.eptura.com/ioffice'', f_depth = 0, f_ok = False\<rparr>,
      \<lparr>f_url = ''https://knowledge.eptura.com/managerplus'', f_depth = 0, f_ok = False\<rparr>,
      \<lparr>f_url = ''https://knowledge.eptura.com/spaceiq'', f_depth = 0, f_ok = False\<rparr>,
      \<lparr>f_url = ''https://knowledge.eptura.com/archibus'', f_depth = 0, f_ok = False\<rparr>]"
  by code_simp

lemma pass_sections_crawled:
  "crawled (\<lambda>e. (f_depth e = 0 \<and> f_url e \<in> url ` set KNOWLEDGE_SECTIONS) \<or>
                (f_depth e = 1 \<and> f_url e \<notin> storedUrls st))
     st (scrapeSections web KNOWLEDGE_SECTIONS st)"
  by (rule sections_crawled)

text \<open>
  C3: no request of a pass is made at a depth above 1, and the requests at depth 0 are those
  for the seed sections. In general a call at depth \<open>d\<close> with bound \<open>m\<close> makes requests at
  depths from \<open>d\<close> to \<open>m\<close> only, the links of a page being followed at the depth of the
  page plus one: a call within the bound first requests its own section at depth \<open>d\<close>,
  and below the bound every link it collects is requested at depth \<open>d + 1\<close>. A call at a
  depth above the bound returns at once and requests nothing, so the links found on a page
  at the bound are not fetched.
\<close>

theorem crawl_depth_bound:
  "(\<forall>e \<in> set (passFetches web now st).
      f_depth e \<le> 1 \<and> (f_depth e = 0 \<longrightarrow> f_url e \<in> url ` set KNOWLEDGE_SECTIONS)) \<and>
   (\<forall>e \<in> set (newFetches st (scrapeSectionRecursively web sec d m st)).
      d \<le> f_depth e \<and> f_depth e \<le> m) \<and>
   (d \<le> m \<longrightarrow>
      (\<exists>rest. newFetches st (scrapeSectionRecursively web sec d m st) =
         \<lparr>f_url = url sec, f_depth = d,
          f_ok = (web (length (fetchLog st)) (url sec) \<noteq> None)\<rparr> # rest)) \<and>
   (\<forall>pg. d < m \<and> web (length (fetchLog st)) (url sec) = Some pg \<longrightarrow>
      (\<forall>l \<in> set (collectLinks (anchors pg) (knowledgeBase (stored sec d pg st))).
         \<exists>e \<in> set (newFetches st (scrapeSectionRecursively web sec d m st)).
            f_url e = url l \<and> f_depth e = d + 1)) \<and>
   (m < d \<longrightarrow> scrapeSectionRecursively web sec d m st = st)"
proof -
  have 1: "f_depth e \<le> 1 \<and> (f_depth e = 0 \<longrightarrow> f_url e \<in> url ` set KNOWLEDGE_SECTIONS)"
    if "e \<in> set (passFetches web now st)" for e
    using crawled_new[OF pass_sections_crawled] that
    by (fastforce simp: passFetches_sections)
  have 2: "d \<le> f_depth e \<and> f_depth e \<le> m"
    if e: "e \<in> set (newFetches st (scrapeSectionRecursively web sec d m st))" for e
  proof (cases "m < d")
    case True
    with e show ?thesis by (simp add: scrape_stop newFetches_def)
  next
    case False
    have "crawled (\<lambda>e. (f_depth e = d \<and> f_url e = url sec) \<or>
                (d < f_depth e \<and> f_depth e \<le> m \<and> f_url e \<notin> {} \<and> f_url e \<noteq> url sec))
       st (scrapeSectionRecursively web sec d m st)"
      by (rule scrape_crawled) simp
    from crawled_new[OF this e] False show ?thesis by auto
  qed
  have 3: "d \<le> m \<longrightarrow>
      (\<exists>rest. newFetches st (scrapeSectionRecursively web sec d m st) =
         \<lparr>f_url = url sec, f_depth = d,
          f_ok = (web (length (fetchLog st)) (url sec) \<noteq> None)\<rparr> # rest)"
    using scrape_root[of d m st web sec] by blast
  have 4: "\<forall>pg. d < m \<and> web (length (fetchLog st)) (url sec) = Some pg \<longrightarrow>
      (\<forall>l \<in> set (collectLinks (anchors pg) (knowledgeBase (stored sec d pg st))).
         \<exists>e \<in> set (newFetches st (scrapeSectionRecursively web sec d m st)).
            f_url e = url l \<and> f_depth e = d + 1)"
    using links_fetch_all by blast
  have 5: "m < d \<longrightarrow> scrapeSectionRecursively web sec d m st = st"
    by (simp add: scrape_stop)
  from 1 2 3 4 5 show ?thesis by blast
qed

theorem crawl_depth_bound_witness:
  "\<lparr>f_url = ''https://knowledge.eptura.com/condeco/faq'', f_depth = 1, f_ok = True\<rparr>
     \<in> set (passFetches exampleWeb 1 initialState) \<and>
   ''https://knowledge.eptura.com/condeco/faq/desks'' \<notin> f_url ` set (passFetches exampleWeb 1 initialState) \<and>
   (1::nat) < 2 \<and>
   scrapeSectionRecursively exampleWeb
     \<lparr>name = ''Desks'', url = ''https://knowledge.eptura.com/condeco/faq/desks''\<rparr> 2 1 firstPass = firstPass"
proof -
  have a: "\<lparr>f_url = ''https://knowledge.eptura.com/condeco/faq'', f_depth = 1, f_ok = True\<rparr>
     \<in> set (passFetches exampleWeb 1 initialState)"
    unfolding firstPass_fetches by simp
  have b: "''https://knowledge.eptura.com/condeco/faq/desks'' \<notin> f_url ` set (passFetches exampleWeb 1 initialState)"
    unfolding firstPass_fetches by simp
  have c: "(1::nat) < 2" by simp
  have d: "scrapeSectionRecursively exampleWeb
     \<lparr>name = ''Desks'', url = ''https://knowledge.eptura.com/condeco/faq/desks''\<rparr> 2 1 firstPass = firstPass"
    using crawl_depth_bound[where web = exampleWeb and st = firstPass and d = 2 and m = 1] c by simp
  have "f_depth \<lparr>f_url = ''https://knowledge.eptura.com/condeco/faq'', f_depth = 1, f_ok = True\<rparr> \<le> 1"
    using crawl_depth_bound[where web = exampleWeb and now = 1 and st = initialState] a by blast
  with a b c d show ?thesis by simp
qed

lemma pass_seeds_fetched:
  "sec \<in> set KNOWLEDGE_SECTIONS \<Longrightarrow>
   \<exists>e \<in> set (passFetches web now st). f_url e = url sec \<and> f_depth e = 0"
  unfolding passFetches_sections by (rule sections_fetch_all)

lemma pass_unchanged:
  "\<forall>e \<in> set (passFetches web now st). f_url e = u \<longrightarrow> \<not> f_ok e \<Longrightarrow>
   map_of (knowledgeBase (scrapeEpturaKnowledge web now st)) u = map_of (knowledgeBase st) u"
  unfolding passFetches_sections pass_knowledgeBase
  using pass_sections_crawled by (rule crawled_unchanged)

lemma pass_link_fresh:
  "e \<in> set (passFetches web now st) \<Longrightarrow>
   (f_depth e = 0 \<and> f_url e \<in> url ` set KNOWLEDGE_SECTIONS) \<or>
   (f_depth e = 1 \<and> f_url e \<notin> storedUrls st)"
  unfolding passFetches_sections
  using crawled_new[OF pass_sections_crawled] by fastforce

lemma pass_log: "\<exists>new. fetchLog (scrapeEpturaKnowledge web now st) = fetchLog st @ new"
  unfolding pass_fetchLog using crawled_log[OF pass_sections_crawled] by blast

lemma pass_stored_mono: "storedUrls st \<subseteq> storedUrls (scrapeEpturaKnowledge web now st)"
  using crawled_stored[OF pass_sections_crawled, of st web]
  by (simp add: storedUrls_def pass_knowledgeBase)

lemma runPasses_log: "\<exists>new. fetchLog (runPasses ps st) = fetchLog st @ new"
proof (induction ps st rule: runPasses.induct)
  case (1 st)
  then show ?case by simp
next
  case (2 web now ps st)
  then obtain n2 where "fetchLog (runPasses ps (scrapeEpturaKnowledge web now st)) =
      fetchLog (scrapeEpturaKnowledge web now st) @ n2" by blast
  moreover obtain n1 where "fetchLog (scrapeEpturaKnowledge web now st) = fetchLog st @ n1"
    using pass_log by blast
  ultimately show ?case by simp
qed

lemma runPasses_nonseed:
  "u \<in> storedUrls st \<Longrightarrow> u \<notin> url ` set KNOWLEDGE_SECTIONS \<Longrightarrow>
   u \<notin> f_url ` set (newFetches st (runPasses ps st)) \<and>
   map_of (knowledgeBase (runPasses ps st)) u = map_of (knowledgeBase st) u"
proof (induction ps st rule: runPasses.induct)
  case (1 st)
  then show ?case by (simp add: newFetches_def)
next
  case (2 web now ps st)
  let ?s = "scrapeEpturaKnowledge web now st"
  have n: "u \<notin> f_url ` set (passFetches web now st)"
    using pass_link_fresh[of _ web now st] "2.prems" by blast
  then have "\<forall>e \<in> set (passFetches web now st). f_url e = u \<longrightarrow> \<not> f_ok e" by auto
  then have m: "map_of (knowledgeBase ?s) u = map_of (knowledgeBase st) u"
    by (rule pass_unchanged)
  have "u \<in> storedUrls ?s" using "2.prems"(1) pass_stored_mono by blast
  then have ih: "u \<notin> f_url ` set (newFetches ?s (runPasses ps ?s)) \<and>
      map_of (knowledgeBase (runPasses ps ?s)) u = map_of (knowledgeBase ?s) u"
    using "2.IH" "2.prems"(2) by blast
  obtain n1 n2 where "fetchLog ?s = fetchLog st @ n1" and "fetchLog (runPasses ps ?s) = fetchLog ?s @ n2"
    using pass_log runPasses_log by blast
  then have "newFetches st (runPasses ps ?s) = passFetches web now st @ newFetches ?s (runPasses ps ?s)"
    by (simp add: newFetches_def passFetches_def)
  with n ih m show ?case by auto
qed

text \<open>
  C9: every pass requests every seed section, stored or not; a link is collected only when
  its address is not a key of the knowledge base; so an address that is a key before a
  pass and is not the address of a seed section is not requested in that pass, and its
  entry stays as it was. The same holds over any number of later passes: once stored, the
  document of an address that is no seed section is never requested or written again.
\<close>

theorem seeds_refetched_stored_links_skipped:
  "(\<forall>sec \<in> set KNOWLEDGE_SECTIONS.
      \<exists>e \<in> set (passFetches web now st). f_url e = url sec \<and> f_depth e = 0) \<and>
   (\<forall>l \<in> set (collectLinks as kb). \<not> mapHas (url l) kb) \<and>
   (\<forall>u \<in> storedUrls st. u \<notin> url ` set KNOWLEDGE_SECTIONS \<longrightarrow>
      u \<notin> f_url ` set (passFetches web now st) \<and>
      map_of (knowledgeBase (scrapeEpturaKnowledge web now st)) u = map_of (knowledgeBase st) u) \<and>
   (\<forall>u \<in> storedUrls st. u \<notin> url ` set KNOWLEDGE_SECTIONS \<longrightarrow>
      u \<notin> f_url ` set (newFetches st (runPasses ps st)) \<and>
      map_of (knowledgeBase (runPasses ps st)) u = map_of (knowledgeBase st) u)"
proof -
  have 1: "\<forall>sec \<in> set KNOWLEDGE_SECTIONS.
      \<exists>e \<in> set (passFetches web now st). f_url e = url sec \<and> f_depth e = 0"
    using pass_seeds_fetched by blast
  have 2: "\<forall>l \<in> set (collectLinks as kb). \<not> mapHas (url l) kb"
    using collectLinks_fresh[of _ as kb] by (auto simp: mapHas_def)
  have 3: "u \<notin> f_url ` set (passFetches web now st) \<and>
      map_of (knowledgeBase (scrapeEpturaKnowledge web now st)) u = map_of (knowledgeBase st) u"
    if u: "u \<in> storedUrls st" "u \<notin> url ` set KNOWLEDGE_SECTIONS" for u
  proof -
    have n: "u \<notin> f_url ` set (passFetches web now st)"
      using pass_link_fresh[of _ web now st] u by blast
    then have "\<forall>e \<in> set (passFetches web now st). f_url e = u \<longrightarrow> \<not> f_ok e" by auto
    then show ?thesis using n pass_unchanged by blast
  qed
  have 4: "\<forall>u \<in> storedUrls st. u \<notin> url ` set KNOWLEDGE_SECTIONS \<longrightarrow>
      u \<notin> f_url ` set (newFetches st (runPasses ps st)) \<and>
      map_of (knowledgeBase (runPasses ps st)) u = map_of (knowledgeBase st) u"
    using runPasses_nonseed by blast
  from 1 2 3 4 show ?thesis by blast
qed

theorem seeds_refetched_stored_links_skipped_witness:
  "''https://knowledge.eptura.com/condeco'' \<in> storedUrls firstPass \<and>
   \<lparr>f_url = ''https://knowledge.eptura.com/condeco'', f_depth = 0, f_ok = True\<rparr>
      \<in> set (passFetches exampleWeb 2 firstPass) \<and>
   ''https://knowledge.eptura.com/condeco/faq'' \<in> storedUrls firstPass \<and>
   ''https://knowledge.eptura.com/condeco/faq'' \<notin> url ` set KNOWLEDGE_SECTIONS \<and>
   ''https://knowledge.eptura.com/condeco/faq'' \<notin> f_url ` set (passFetches exampleWeb 2 firstPass) \<and>
   map_of (knowledgeBase (scrapeEpturaKnowledge exampleWeb 2 firstPass))
       ''https://knowledge.eptura.com/condeco/faq'' =
     Some \<lparr>title = ''Questions'', content = ''Frequent questions'',
        doc_url = ''https://knowledge.eptura.com/condeco/faq''\<rparr>"
proof -
  have a: "''https://knowledge.eptura.com/condeco'' \<in> storedUrls firstPass"
    and b: "''https://knowledge.eptura.com/condeco/faq'' \<in> storedUrls firstPass"
    by (simp_all add: storedUrls_def firstPass_base)
  have c: "\<lparr>f_url = ''https://knowledge.eptura.com/condeco'', f_depth = 0, f_ok = True\<rparr>
      \<in> set (passFetches exampleWeb 2 firstPass)"
    unfolding secondPass_fetches by simp
  have d: "''https://knowledge.eptura.com/condeco/faq'' \<notin> url ` set KNOWLEDGE_SECTIONS"
    by (simp add: KNOWLEDGE_SECTIONS_def)
  have "''https://knowledge.eptura.com/condeco/faq'' \<notin> f_url ` set (passFetches exampleWeb 2 firstPass) \<and>
    map_of (knowledgeBase (scrapeEpturaKnowledge exampleWeb 2 firstPass))
       ''https://knowledge.eptura.com/condeco/faq'' =
    map_of (knowledgeBase firstPass) ''https://knowledge.eptura.com/condeco/faq''"
    using seeds_refetched_stored_links_skipped[where web = exampleWeb and now = 2 and st = firstPass] b d
    by blast
  then show ?thesis using a b c d by (simp add: firstPass_base)
qed

text \<open>
  C2: when every request of a pass for a stored address fails, the entry of that address
  after the pass is its entry before. A failed request only adds its line to the log: the
  links of that page are not discovered and nothing is written. The traversal goes on:
  every seed section is requested in every pass, and every link collected on a page below
  the bound is requested, whatever failed before.
\<close>

theorem failed_fetch_keeps_entry:
  "(u \<in> storedUrls st \<and> (\<forall>e \<in> set (passFetches web now st). f_url e = u \<longrightarrow> \<not> f_ok e) \<longrightarrow>
      map_of (knowledgeBase (scrapeEpturaKnowledge web now st)) u = map_of (knowledgeBase st) u) \<and>
   (d \<le> m \<and> web (length (fetchLog st)) (url sec) = None \<longrightarrow>
      scrapeSectionRecursively web sec d m st =
        st\<lparr>fetchLog := fetchLog st @ [\<lparr>f_url = url sec, f_depth = d, f_ok = False\<rparr>]\<rparr>) \<and>
   (\<forall>s \<in> set KNOWLEDGE_SECTIONS.
      \<exists>e \<in> set (passFetches web now st). f_url e = url s \<and> f_depth e = 0) \<and>
   (\<forall>pg. d < m \<and> web (length (fetchLog st)) (url sec) = Some pg \<longrightarrow>
      (\<forall>l \<in> set (collectLinks (anchors pg) (knowledgeBase (stored sec d pg st))).
         \<exists>e \<in> set (newFetches st (scrapeSectionRecursively web sec d m st)).
            f_url e = url l \<and> f_depth e = d + 1))"
proof -
  have 1: "u \<in> storedUrls st \<and> (\<forall>e \<in> set (passFetches web now st). f_url e = u \<longrightarrow> \<not> f_ok e) \<longrightarrow>
      map_of (knowledgeBase (scrapeEpturaKnowledge web now st)) u = map_of (knowledgeBase st) u"
    using pass_unchanged by blast
  have 2: "d \<le> m \<and> web (length (fetchLog st)) (url sec) = None \<longrightarrow>
      scrapeSectionRecursively web sec d m st =
        st\<lparr>fetchLog := fetchLog st @ [\<lparr>f_url = url sec, f_depth = d, f_ok = False\<rparr>]\<rparr>"
    using scrape_fail by blast
  have 3: "\<forall>s \<in> set KNOWLEDGE_SECTIONS.
      \<exists>e \<in> set (passFetches web now st). f_url e = url s \<and> f_depth e = 0"
    using pass_seeds_fetched by blast
  have 4: "\<forall>pg. d < m \<and> web (length (fetchLog st)) (url sec) = Some pg \<longrightarrow>
      (\<forall>l \<in> set (collectLinks (anchors pg) (knowledgeBase (stored sec d pg st))).
         \<exists>e \<in> set (newFetches st (scrapeSectionRecursively web sec d m st)).
            f_url e = url l \<and> f_depth e = d + 1)"
    using links_fetch_all by blast
  from 1 2 3 4 show ?thesis by blast
qed

theorem failed_fetch_keeps_entry_witness:
  "''https://knowledge.eptura.com/condeco'' \<in> storedUrls firstPass \<and>
   \<lparr>f_url = ''https://knowledge.eptura.com/condeco'', f_depth = 0, f_ok = False\<rparr>
      \<in> set (passFetches downWeb 2 firstPass) \<and>
   map_of (knowledgeBase (scrapeEpturaKnowledge downWeb 2 firstPass))
       ''https://knowledge.eptura.com/condeco'' =
     Some \<lparr>title = ''Condeco HomeClose'', content = ''Book a desk with Condeco'',
        doc_url = ''https://knowledge.eptura.com/condeco''\<rparr>"
proof -
  have a: "''https://knowledge.eptura.com/condeco'' \<in> storedUrls firstPass"
    by (simp add: storedUrls_def firstPass_base)
  have b: "\<forall>e \<in> set (passFetches downWeb 2 firstPass).
      f_url e = ''https://knowledge.eptura.com/condeco'' \<longrightarrow> \<not> f_ok e"
    unfolding downPass_fetches by simp
  have c: "\<lparr>f_url = ''https://knowledge.eptura.com/condeco'', f_depth = 0, f_ok = False\<rparr>
      \<in> set (passFetches downWeb 2 firstPass)"
    unfolding downPass_fetches by simp
  have "map_of (knowledgeBase (scrapeEpturaKnowledge downWeb 2 firstPass))
       ''https://knowledge.eptura.com/condeco'' =
     map_of (knowledgeBase firstPass) ''https://knowledge.eptura.com/condeco''"
    using failed_fetch_keeps_entry[where web = downWeb and now = 2 and st = firstPass
        and u = "''https://knowledge.eptura.com/condeco''"] a b
    by blast
  then show ?thesis using a c by (simp add: firstPass_base)
qed

lemma sections_snoc:
  "scrapeSections web (secs @ [sec]) st =
   scrapeSectionRecursively web sec 0 1 (scrapeSections web secs st)"
  by (simp add: scrapeSections_def)

lemma sections_refetch:
  "i < j \<Longrightarrow> j < length (newFetches st (scrapeSections web secs st)) \<Longrightarrow>
   f_url (newFetches st (scrapeSections web secs st) ! i) =
     f_url (newFetches st (scrapeSections web secs st) ! j) \<Longrightarrow>
   f_ok (newFetches st (scrapeSections web secs st) ! i) \<Longrightarrow>
   0 < f_depth (newFetches st (scrapeSections web secs st) ! j) \<Longrightarrow>
   0 < f_depth (newFetches st (scrapeSections web secs st) ! i) \<and>
   (\<forall>k. i < k \<and> k < j \<longrightarrow> 0 < f_depth (newFetches st (scrapeSections web secs st) ! k))"
proof (induction secs arbitrary: i j rule: rev_induct)
  case Nil
  then show ?case by (simp add: scrapeSections_def newFetches_def)
next
  case (snoc sec secs)
  let ?s = "scrapeSections web secs st"
  let ?s' = "scrapeSectionRecursively web sec 0 1 ?s"
  let ?N1 = "newFetches st ?s"
  let ?L = "newFetches st (scrapeSections web (secs @ [sec]) st)"
  obtain rest where n2: "newFetches ?s ?s' =
      \<lparr>f_url = url sec, f_depth = 0, f_ok = (web (length (fetchLog ?s)) (url sec) \<noteq> None)\<rparr> # rest"
    and deep: "\<forall>e \<in> set rest. 0 < f_depth e"
    using scrape_root[of 0 1 ?s web sec] by auto
  let ?root = "\<lparr>f_url = url sec, f_depth = 0, f_ok = (web (length (fetchLog ?s)) (url sec) \<noteq> None)\<rparr>"
  have c1: "crawled (\<lambda>e. (f_depth e = 0 \<and> f_url e \<in> url ` set secs) \<or>
                (f_depth e = 1 \<and> f_url e \<notin> storedUrls st)) st ?s"
    by (rule sections_crawled)
  have c2: "crawled (\<lambda>e. (f_depth e = 0 \<and> f_url e = url sec) \<or>
                (0 < f_depth e \<and> f_depth e \<le> 1 \<and> f_url e \<notin> storedUrls ?s \<and> f_url e \<noteq> url sec))
      ?s ?s'"
    by (rule scrape_crawled) simp
  have L: "?L = ?N1 @ ?root # rest"
    using newFetches_trans[OF c1 c2] n2 by (simp add: sections_snoc)
  have fresh: "f_url e \<notin> storedUrls ?s \<and> f_url e \<noteq> url sec" if "e \<in> set rest" for e
  proof -
    from that have "e \<in> set (newFetches ?s ?s')" by (subst n2) simp
    from crawled_new[OF c2 this] deep that show ?thesis by auto
  qed
  have old: "f_url e \<in> storedUrls ?s" if "e \<in> set ?N1" "f_ok e" for e
    using crawled_ok_stored[OF c1 that] .
  have in_rest: "?L ! n \<in> set rest" if "length ?N1 < n" "n < length ?L" for n
  proof -
    from that have "n - length ?N1 - 1 < length rest" by (simp add: L)
    moreover have "?L ! n = rest ! (n - length ?N1 - 1)"
      using that by (simp add: L nth_append nth_Cons')
    ultimately show ?thesis by simp
  qed
  have in_old: "?L ! n = ?N1 ! n" if "n < length ?N1" for n
    using that by (simp add: L nth_append)
  have at_root: "?L ! length ?N1 = ?root" by (simp add: L)
  show ?case
  proof (cases "j < length ?N1")
    case True
    with snoc.prems have i: "i < length ?N1" by simp
    have "0 < f_depth (?N1 ! i) \<and> (\<forall>k. i < k \<and> k < j \<longrightarrow> 0 < f_depth (?N1 ! k))"
      using snoc.IH[of i j] snoc.prems True i by (simp add: in_old)
    then show ?thesis using True i by (simp add: in_old)
  next
    case False
    have "j \<noteq> length ?N1"
      using snoc.prems(5) at_root by auto
    with False have j: "length ?N1 < j" by simp
    have jr: "?L ! j \<in> set rest" using in_rest[OF j snoc.prems(2)] .
    have "\<not> i < length ?N1"
    proof
      assume i: "i < length ?N1"
      then have "?N1 ! i \<in> set ?N1" by simp
      moreover have "f_ok (?N1 ! i)" using snoc.prems(4) i by (simp add: in_old)
      ultimately have "f_url (?N1 ! i) \<in> storedUrls ?s" by (rule old)
      then show False using fresh[OF jr] snoc.prems(3) i by (simp add: in_old)
    qed
    moreover have "i \<noteq> length ?N1"
    proof
      assume "i = length ?N1"
      then have "f_url (?L ! i) = url sec" using at_root by simp
      then show False using fresh[OF jr] snoc.prems(3) by simp
    qed
    ultimately have i: "length ?N1 < i" by simp
    have "0 < f_depth (?L ! i)"
      using in_rest[OF i] snoc.prems(1,2) deep by simp
    moreover have "0 < f_depth (?L ! k)" if "i < k \<and> k < j" for k
      using in_rest[of k] that i snoc.prems(2) deep by simp
    ultimately show ?thesis by blast
  qed
qed

text \<open>C1 as stated: a page that links twice to an address not yet stored has that address
  requested twice in one pass.\<close>

theorem pass_refetches_counterexample:
  "\<not> distinct (map f_url (passFetches exampleWeb 1 initialState))"
  unfolding firstPass_fetches by simp

text \<open>
  C1, amended: a request of a pass is for a seed section, or for a link whose address was not
  a key of the knowledge base when the pass began. When a request that went through is
  followed, later in the pass, by a request for the same address as a link, both are for
  links and no request for a seed section lies between them: they are links of one and the
  same page. There is no set of visited addresses.
\<close>

theorem link_fetched_only_if_not_stored:
  "(\<forall>e \<in> set (passFetches web now st).
      (f_depth e = 0 \<and> f_url e \<in> url ` set KNOWLEDGE_SECTIONS) \<or>
      (f_depth e = 1 \<and> f_url e \<notin> storedUrls st)) \<and>
   (\<forall>i j. i < j \<and> j < length (passFetches web now st) \<and>
      f_url (passFetches web now st ! i) = f_url (passFetches web now st ! j) \<and>
      f_ok (passFetches web now st ! i) \<and> 0 < f_depth (passFetches web now st ! j) \<longrightarrow>
      0 < f_depth (passFetches web now st ! i) \<and>
      (\<forall>k. i < k \<and> k < j \<longrightarrow> 0 < f_depth (passFetches web now st ! k)))"
proof -
  have 1: "\<forall>e \<in> set (passFetches web now st).
      (f_depth e = 0 \<and> f_url e \<in> url ` set KNOWLEDGE_SECTIONS) \<or>
      (f_depth e = 1 \<and> f_url e \<notin> storedUrls st)"
    using pass_link_fresh by blast
  have 2: "\<forall>i j. i < j \<and> j < length (passFetches web now st) \<and>
      f_url (passFetches web now st ! i) = f_url (passFetches web now st ! j) \<and>
      f_ok (passFetches web now st ! i) \<and> 0 < f_depth (passFetches web now st ! j) \<longrightarrow>
      0 < f_depth (passFetches web now st ! i) \<and>
      (\<forall>k. i < k \<and> k < j \<longrightarrow> 0 < f_depth (passFetches web now st ! k))"
    unfolding passFetches_sections using sections_refetch by blast
  from 1 2 show ?thesis by blast
qed

theorem link_fetched_only_if_not_stored_witness:
  "\<lparr>f_url = ''https://knowledge.eptura.com/condeco/faq'', f_depth = 1, f_ok = True\<rparr>
      \<in> set (passFetches exampleWeb 1 initialState) \<and>
   ''https://knowledge.eptura.com/condeco/faq'' \<notin> storedUrls initialState \<and>
   (1::nat) < 2 \<and> 2 < length (passFetches exampleWeb 1 initialState) \<and>
   f_url (passFetches exampleWeb 1 initialState ! 1) = f_url (passFetches exampleWeb 1 initialState ! 2) \<and>
   f_ok (passFetches exampleWeb 1 initialState ! 1) \<and>
   0 < f_depth (passFetches exampleWeb 1 initialState ! 2) \<and>
   0 < f_depth (passFetches exampleWeb 1 initialState ! 1)"
proof -
  have a: "\<lparr>f_url = ''https://knowledge.eptura.com/condeco/faq'', f_depth = 1, f_ok = True\<rparr>
      \<in> set (passFetches exampleWeb 1 initialState)"
    unfolding firstPass_fetches by simp
  have b: "(1::nat) < 2 \<and> 2 < length (passFetches exampleWeb 1 initialState) \<and>
   f_url (passFetches exampleWeb 1 initialState ! 1) = f_url (passFetches exampleWeb 1 initialState ! 2) \<and>
   f_ok (passFetches exampleWeb 1 initialState ! 1) \<and>
   0 < f_depth (passFetches exampleWeb 1 initialState ! 2)"
    unfolding firstPass_fetches by simp
  have c: "''https://knowledge.eptura.com/condeco/faq'' \<notin> storedUrls initialState"
    using link_fetched_only_if_not_stored[where web = exampleWeb and now = 1 and st = initialState] a
    by fastforce
  have d: "0 < f_depth (passFetches exampleWeb 1 initialState ! 1)"
    using link_fetched_only_if_not_stored[where web = exampleWeb and now = 1 and st = initialState] b
    by blast
  from a b c d show ?thesis by simp
qed

text \<open>C8 as stated: on a page with two \<^verbatim>\<open>title\<close> elements the stored title is the text of
  both, not that of the first.\<close>

theorem stored_title_counterexample:
  "exampleWeb 0 ''https://knowledge.eptura.com/condeco'' = Some homePage \<and>
   hd (titles homePage) = ''Condeco Home'' \<and>
   map_of (knowledgeBase (scrapeEpturaKnowledge exampleWeb 1 initialState))
       ''https://knowledge.eptura.com/condeco'' =
     Some \<lparr>title = ''Condeco HomeClose'', content = ''Book a desk with Condeco'',
        doc_url = ''https://knowledge.eptura.com/condeco''\<rparr>"
  by code_simp

text \<open>
  C8, amended: when the request for a section goes through, the document stored for its
  address has as title the text of all the \<^verbatim>\<open>title\<close> elements of the page, one after the
  other, and the name of the section when that text is empty; on a page with one \<^verbatim>\<open>title\<close>
  element this is the text of that element, or the name of the section.
\<close>

theorem stored_title:
  "d \<le> m \<and> web (length (fetchLog st)) (url sec) = Some pg \<longrightarrow>
   map_of (knowledgeBase (scrapeSectionRecursively web sec d m st)) (url sec) =
     Some \<lparr>title = (if concat (titles pg) = [] then name sec else concat (titles pg)),
           content = pageContent pg, doc_url = url sec\<rparr> \<and>
   (\<forall>t. titles pg = [t] \<longrightarrow>
      (if concat (titles pg) = [] then name sec else concat (titles pg)) =
      (if t = [] then name sec else t))"
proof (intro impI, elim conjE)
  assume le: "d \<le> m" and pg: "web (length (fetchLog st)) (url sec) = Some pg"
  let ?st1 = "stored sec d pg st"
  let ?f = "\<lambda>link. scrapeSectionRecursively web link (d + 1) m"
  let ?links = "collectLinks (anchors pg) (knowledgeBase ?st1)"
  have eq: "scrapeSectionRecursively web sec d m st = fold ?f ?links ?st1"
    using le pg by (rule scrape_ok)
  have c: "crawled (\<lambda>e. d < f_depth e \<and> f_url e \<notin> storedUrls ?st1) ?st1 (fold ?f ?links ?st1)"
    by (rule links_crawled)
  have "\<forall>e \<in> set (newFetches ?st1 (fold ?f ?links ?st1)). f_url e = url sec \<longrightarrow> \<not> f_ok e"
    using crawled_new[OF c] by (auto simp: storedUrls_stored)
  with c have "map_of (knowledgeBase (fold ?f ?links ?st1)) (url sec) =
      map_of (knowledgeBase ?st1) (url sec)"
    by (rule crawled_unchanged)
  then have "map_of (knowledgeBase (scrapeSectionRecursively web sec d m st)) (url sec) =
     Some \<lparr>title = (if concat (titles pg) = [] then name sec else concat (titles pg)),
           content = pageContent pg, doc_url = url sec\<rparr>"
    unfolding eq by (simp add: stored_def map_of_mapSet pageTitle_def Let_def)
  then show "map_of (knowledgeBase (scrapeSectionRecursively web sec d m st)) (url sec) =
     Some \<lparr>title = (if concat (titles pg) = [] then name sec else concat (titles pg)),
           content = pageContent pg, doc_url = url sec\<rparr> \<and>
   (\<forall>t. titles pg = [t] \<longrightarrow>
      (if concat (titles pg) = [] then name sec else concat (titles pg)) =
      (if t = [] then name sec else t))"
    by simp
qed

theorem stored_title_witness:
  "(0::nat) \<le> 1 \<and>
   exampleWeb (length (fetchLog initialState)) ''https://knowledge.eptura.com/condeco/faq'' = Some faqPage \<and>
   map_of (knowledgeBase (scrapeSectionRecursively exampleWeb
        \<lparr>name = ''FAQ'', url = ''https://knowledge.eptura.com/condeco/faq''\<rparr> 0 1 initialState))
     ''https://knowledge.eptura.com/condeco/faq'' =
   Some \<lparr>title = ''FAQ'', content = ''Frequent questions'',
          doc_url = ''https://knowledge.eptura.com/condeco/faq''\<rparr>"
proof -
  have a: "exampleWeb (length (fetchLog initialState)) ''https://knowledge.eptura.com/condeco/faq'' = Some faqPage"
    by code_simp
  have b: "pageContent faqPage = ''Frequent questions''" by code_simp
  have c: "titles faqPage = []" by (simp add: faqPage_def)
  from stored_title[where web = exampleWeb and st = initialState and d = 0 and m = 1 and pg = faqPage
      and sec = "\<lparr>name = ''FAQ'', url = ''https://knowledge.eptura.com/condeco/faq''\<rparr>"] a b c
  show ?thesis by simp
qed

lemma pass_docs:
  "(k, d) \<in> set (knowledgeBase (scrapeEpturaKnowledge web now st)) \<Longrightarrow>
   (k, d) \<in> set (knowledgeBase st) \<or> (doc_url d = k \<and> (\<exists>pg. content d = pageContent pg))"
  unfolding pass_knowledgeBase using pass_sections_crawled by (rule crawled_docs)

lemma runPasses_docs:
  "(k, d) \<in> set (knowledgeBase (runPasses ps st)) \<Longrightarrow>
   (k, d) \<in> set (knowledgeBase st) \<or> (doc_url d = k \<and> (\<exists>pg. content d = pageContent pg))"
proof (induction ps st rule: runPasses.induct)
  case (1 st)
  then show ?case by simp
next
  case (2 web now ps st)
  then have "(k, d) \<in> set (knowledgeBase (scrapeEpturaKnowledge web now st)) \<or>
      (doc_url d = k \<and> (\<exists>pg. content d = pageContent pg))"
    by simp
  then show ?case using pass_docs by blast
qed

lemma normalisedContent_pageContent: "normalisedContent (pageContent pg)"
  unfolding normalisedContent_def using pageContent_ok[of pg] by blast

lemma longPass_base:
  "knowledgeBase (runPasses [(longWeb, 1)] initialState) =
     [(''https://knowledge.eptura.com/condeco'', longDoc)]"
  by code_simp

text \<open>C6 as stated: a body of more than 1000 characters that is cut behind a space gives a
  content that ends with a space.\<close>

theorem content_trailing_space_counterexample:
  "(''https://knowledge.eptura.com/condeco'', longDoc)
      \<in> set (knowledgeBase (runPasses [(longWeb, 1)] initialState)) \<and>
   content longDoc \<noteq> [] \<and> isWhiteSpace (last (content longDoc))"
  unfolding longPass_base by (simp add: longDoc_def isWhiteSpace_def)

text \<open>
  C6, amended: the content written for a page, and so the content of every document in the
  knowledge base after any sequence of passes from the start of the program, has at most
  1000 characters, no two neighbouring white-space characters and no white space in front;
  it ends with white space only when it has the full 1000 characters, the text being cut
  after it was trimmed.
\<close>

theorem content_normalised:
  "normalisedContent (pageContent pg) \<and>
   ((k, d) \<in> set (knowledgeBase (runPasses ps initialState)) \<longrightarrow>
      doc_url d = k \<and> (\<exists>pg. content d = pageContent pg) \<and> normalisedContent (content d)) \<and>
   (normalisedContent c \<longleftrightarrow>
      length c \<le> 1000 \<and>
      (\<forall>i. Suc i < length c \<longrightarrow> \<not> (isWhiteSpace (c ! i) \<and> isWhiteSpace (c ! Suc i))) \<and>
      (c \<noteq> [] \<longrightarrow> \<not> isWhiteSpace (hd c)) \<and>
      (c \<noteq> [] \<and> isWhiteSpace (last c) \<longrightarrow> length c = 1000))"
proof -
  have 1: "normalisedContent (pageContent pg)" by (rule normalisedContent_pageContent)
  have 2: "doc_url d = k \<and> (\<exists>pg. content d = pageContent pg) \<and> normalisedContent (content d)"
    if "(k, d) \<in> set (knowledgeBase (runPasses ps initialState))"
  proof -
    from runPasses_docs[OF that]
    have "doc_url d = k \<and> (\<exists>pg. content d = pageContent pg)" by (simp add: initialState_def)
    then show ?thesis using normalisedContent_pageContent by auto
  qed
  have 3: "normalisedContent c \<longleftrightarrow>
      length c \<le> 1000 \<and>
      (\<forall>i. Suc i < length c \<longrightarrow> \<not> (isWhiteSpace (c ! i) \<and> isWhiteSpace (c ! Suc i))) \<and>
      (c \<noteq> [] \<longrightarrow> \<not> isWhiteSpace (hd c)) \<and>
      (c \<noteq> [] \<and> isWhiteSpace (last c) \<longrightarrow> length c = 1000)"
    unfolding normalisedContent_def noWhiteSpaceRun_iff by (rule refl)
  from 1 2 3 show ?thesis by blast
qed

theorem content_normalised_witness:
  "(''https://knowledge.eptura.com/condeco'', longDoc)
      \<in> set (knowledgeBase (runPasses [(longWeb, 1)] initialState)) \<and>
   normalisedContent (content longDoc) \<and> length (content longDoc) = 1000"
proof -
  have a: "(''https://knowledge.eptura.com/condeco'', longDoc)
      \<in> set (knowledgeBase (runPasses [(longWeb, 1)] initialState))"
    unfolding longPass_base by simp
  have b: "length (content longDoc) = 1000" by (simp add: longDoc_def)
  from content_normalised[where ps = "[(longWeb, 1)]" and d = longDoc
      and k = "''https://knowledge.eptura.com/condeco''"] a b
  show ?thesis by blast
qed

end
